theory Spec2Isabelle
  imports Complex_Main
begin

section \<open>JavaScript numbers\<close>

text \<open>
  \<^verbatim>\<open>lib/unit.js\<close> computes with JavaScript Numbers, that is IEEE 754 binary64 values.
  A finite Number is modelled by the rational it denotes, the other three kinds by
  constructors of their own. The two zeros are one value \<open>Fin 0\<close>: the unit class never
  divides by a zero (a rate that is \<open>\<le> 0\<close> is rejected first, and the scale factors are
  not zero), and \<open>toFixed\<close> and string conversion print both zeros alike.
\<close>

datatype jsnum = NaN | PosInf | NegInf | Fin rat

text \<open>
  \<open>ilog b q\<close> is the exponent of \<open>0 < q\<close> in base \<open>b\<close>: the \<open>e\<close> with
  \<open>b powi e \<le> q < b powi (e + 1)\<close>. It is found by dividing down to, or multiplying up to,
  the interval from 1 to \<open>b\<close>.
\<close>

function log_up :: "nat \<Rightarrow> rat \<Rightarrow> int" where
  "log_up b q = (if b < 2 \<or> q < of_nat b then 0 else log_up b (q / of_nat b) + 1)"
  by pat_completeness auto
termination
proof (relation "measure (\<lambda>(b, q). nat \<lfloor>q\<rfloor>)")
  show "wf (measure (\<lambda>(b::nat, q::rat). nat \<lfloor>q\<rfloor>))" by simp
next
  fix b :: nat and q :: rat
  assume "\<not> (b < 2 \<or> q < of_nat b)"
  then have b: "(2::rat) \<le> of_nat b" and q: "of_nat b \<le> q" by auto
  have "q / of_nat b \<le> q / 2"
    using b q by (intro divide_left_mono) auto
  moreover have "q / 2 \<le> q - 1" using b q by simp
  moreover have "q < of_int \<lfloor>q\<rfloor> + 1" by linarith
  ultimately have "q / of_nat b < of_int \<lfloor>q\<rfloor>" by linarith
  then have "\<lfloor>q / of_nat b\<rfloor> < \<lfloor>q\<rfloor>" by (simp only: floor_less_iff)
  moreover have "0 < \<lfloor>q\<rfloor>" using b q by (simp add: less_floor_iff)
  ultimately show "((b, q / of_nat b), (b, q)) \<in> measure (\<lambda>(b, q). nat \<lfloor>q\<rfloor>)" by simp
qed

function log_down :: "nat \<Rightarrow> rat \<Rightarrow> int" where
  "log_down b q = (if b < 2 \<or> q \<le> 0 \<or> 1 \<le> q then 0 else log_down b (q * of_nat b) - 1)"
  by pat_completeness auto
termination
proof (relation "measure (\<lambda>(b, q). nat \<lceil>1 / q\<rceil>)")
  show "wf (measure (\<lambda>(b::nat, q::rat). nat \<lceil>1 / q\<rceil>))" by simp
next
  fix b :: nat and q :: rat
  assume "\<not> (b < 2 \<or> q \<le> 0 \<or> 1 \<le> q)"
  then have b: "(2::rat) \<le> of_nat b" and q: "0 < q" "q < 1" by auto
  have g: "1 < 1 / q" using q by simp
  have c: "(2::rat) \<le> of_int \<lceil>1 / q\<rceil>"
  proof -
    have "2 \<le> \<lceil>1 / q\<rceil>" using g by linarith
    then show ?thesis by linarith
  qed
  have "1 / (q * of_nat b) = (1 / q) / of_nat b" by simp
  also have "\<dots> \<le> (1 / q) / 2"
    using b q by (intro divide_left_mono) auto
  also have "\<dots> \<le> of_int \<lceil>1 / q\<rceil> / 2"
    using le_of_int_ceiling [of "1 / q"] by simp
  also have "\<dots> \<le> of_int \<lceil>1 / q\<rceil> - 1" using c by simp
  finally have "1 / (q * of_nat b) \<le> of_int (\<lceil>1 / q\<rceil> - 1)" by simp
  then have "\<lceil>1 / (q * of_nat b)\<rceil> \<le> \<lceil>1 / q\<rceil> - 1"
    by (simp only: ceiling_le_iff)
  moreover have "0 < \<lceil>1 / q\<rceil>" using q by simp
  ultimately show "((b, q * of_nat b), (b, q)) \<in> measure (\<lambda>(b, q). nat \<lceil>1 / q\<rceil>)" by simp
qed

declare log_up.simps [simp del] log_down.simps [simp del]

definition ilog :: "nat \<Rightarrow> rat \<Rightarrow> int" where
  "ilog b q = (if 1 \<le> q then log_up b q else log_down b q)"

definition round_even :: "rat \<Rightarrow> int" where
  \<comment> \<open>nearest integer, a tie going to the even one\<close>
  "round_even x = (let f = \<lfloor>x\<rfloor>; d = x - of_int f in
     if d < 1 / 2 then f else if 1 / 2 < d then f + 1 else if even f then f else f + 1)"

definition fexp :: "rat \<Rightarrow> int" where
  \<comment> \<open>the exponent of the unit in the last place of the binary64 values near \<open>q\<close>\<close>
  "fexp q = max (ilog 2 \<bar>q\<bar>) (- 1022) - 52"

definition fl :: "rat \<Rightarrow> jsnum" where
  \<comment> \<open>the Number value for a rational: round to nearest, ties to even, with 53 significant
      bits, gradual underflow below \<open>2 powi - 1022\<close> and overflow to an infinity\<close>
  "fl q = (if q = 0 then Fin 0 else
     let r = of_int (round_even (q / 2 powi fexp q)) * 2 powi fexp q
     in if 2 ^ 1024 \<le> \<bar>r\<bar> then (if 0 < r then PosInf else NegInf) else Fin r)"

fun js_sign :: "jsnum \<Rightarrow> int" where
  "js_sign NaN = 0"
| "js_sign PosInf = 1"
| "js_sign NegInf = - 1"
| "js_sign (Fin q) = (if 0 < q then 1 else if q < 0 then - 1 else 0)"

definition js_inf :: "int \<Rightarrow> jsnum" where
  "js_inf s = (if 0 < s then PosInf else NegInf)"

fun js_mul :: "jsnum \<Rightarrow> jsnum \<Rightarrow> jsnum" where
  "js_mul (Fin a) (Fin b) = fl (a * b)"
| "js_mul x y = (if x = NaN \<or> y = NaN \<or> js_sign x * js_sign y = 0 then NaN
                 else js_inf (js_sign x * js_sign y))"

fun js_div :: "jsnum \<Rightarrow> jsnum \<Rightarrow> jsnum" where
  "js_div (Fin a) (Fin b) =
     (if b = 0 then (if a = 0 then NaN else js_inf (js_sign (Fin a))) else fl (a / b))"
| "js_div (Fin a) y = (if y = NaN then NaN else Fin 0)"
| "js_div x (Fin b) = (if x = NaN then NaN else js_inf (js_sign x * (if b < 0 then - 1 else 1)))"
| "js_div x y = NaN"

definition is_double :: "jsnum \<Rightarrow> bool" where
  \<comment> \<open>a value of the model that is a Number: a finite one is its own rounding\<close>
  "is_double x = (case x of Fin q \<Rightarrow> fl q = Fin q | _ \<Rightarrow> True)"

fun js_le_zero :: "jsnum \<Rightarrow> bool" where
  \<comment> \<open>the comparison \<^verbatim>\<open>x <= 0\<close>\<close>
  "js_le_zero (Fin q) = (q \<le> 0)"
| "js_le_zero NegInf = True"
| "js_le_zero _ = False"

section \<open>Numbers and strings\<close>

definition digit_chars :: string where
  "digit_chars = ''0123456789''"

definition digit_of :: "nat \<Rightarrow> char" where
  "digit_of d = digit_chars ! (d mod 10)"

definition is_digit :: "char \<Rightarrow> bool" where
  "is_digit c = (c \<in> set digit_chars)"

definition digit_val :: "char \<Rightarrow> nat" where
  "digit_val c = length (takeWhile (\<lambda>d. d \<noteq> c) digit_chars)"

function dec_digits :: "nat \<Rightarrow> string" where
  "dec_digits n = (if n < 10 then [digit_of n] else dec_digits (n div 10) @ [digit_of (n mod 10)])"
  by pat_completeness auto
termination
  by (relation "measure id") auto

declare dec_digits.simps [simp del]

definition digits_val :: "string \<Rightarrow> nat" where
  "digits_val ds = foldl (\<lambda>a c. 10 * a + digit_val c) 0 ds"

text \<open>
  Number to String (ECMAScript \<open>ToString\<close> applied to a Number). For \<open>0 < x\<close> the standard
  asks for integers \<open>n\<close>, \<open>k\<close>, \<open>s\<close> with \<open>10 ^ (k - 1) \<le> s < 10 ^ k\<close>, the Number value of
  \<open>s * 10 powi (n - k)\<close> being \<open>x\<close>, and \<open>k\<close> as small as possible; among several \<open>s\<close> the one
  closest to \<open>x\<close>. \<open>shortest\<close> tries \<open>k = 1, 2, \<dots>\<close>; at each \<open>k\<close> the two candidates
  are the neighbours of \<open>x * 10 powi (k - n)\<close>. No binary64 value has more than 767
  significant decimal digits, which bounds the search.
\<close>

definition digits_cand :: "rat \<Rightarrow> int \<Rightarrow> nat \<Rightarrow> int list" where
  "digits_cand x n k = (let y = x * 10 powi (int k - n); lo = \<lfloor>y\<rfloor>; hi = lo + 1 in
     if y - of_int lo < of_int hi - y \<or> (y - of_int lo = of_int hi - y \<and> even lo)
     then [lo, hi] else [hi, lo])"

definition digits_ok :: "rat \<Rightarrow> int \<Rightarrow> nat \<Rightarrow> int \<Rightarrow> bool" where
  "digits_ok x n k s = (fl (of_int s * 10 powi (n - int k)) = Fin x)"

fun shortest :: "nat \<Rightarrow> rat \<Rightarrow> int \<Rightarrow> nat \<Rightarrow> int \<times> nat" where
  "shortest 0 x n k = (hd (digits_cand x n k), k)"
| "shortest (Suc fuel) x n k =
     (case filter (digits_ok x n k) (digits_cand x n k) of
        s # _ \<Rightarrow> (s, k)
      | [] \<Rightarrow> shortest fuel x n (Suc k))"

definition format_digits :: "int \<Rightarrow> nat \<Rightarrow> int \<Rightarrow> string" where
  \<comment> \<open>the \<open>k\<close> digits of \<open>s\<close>, laid out for the decimal exponent \<open>n\<close>\<close>
  "format_digits s k n = (let ds = dec_digits (nat s) in
     if int k \<le> n \<and> n \<le> 21 then ds @ replicate (nat n - k) CHR ''0''
     else if 0 < n \<and> n \<le> 21 then take (nat n) ds @ ''.'' @ drop (nat n) ds
     else if - 6 < n \<and> n \<le> 0 then ''0.'' @ replicate (nat (- n)) CHR ''0'' @ ds
     else let es = (if 0 \<le> n - 1 then ''+'' else ''-'') @ dec_digits (nat \<bar>n - 1\<bar>) in
       if k = 1 then ds @ ''e'' @ es else [hd ds] @ ''.'' @ tl ds @ ''e'' @ es)"

definition ToString_pos :: "rat \<Rightarrow> string" where
  "ToString_pos x = (let n = ilog 10 x + 1; (s, k) = shortest 767 x n 1 in
     if s = 10 ^ k then format_digits (s div 10) k (n + 1) else format_digits s k n)"

definition ToString :: "jsnum \<Rightarrow> string" where
  "ToString x = (case x of
       NaN \<Rightarrow> ''NaN''
     | PosInf \<Rightarrow> ''Infinity''
     | NegInf \<Rightarrow> ''-Infinity''
     | Fin q \<Rightarrow> if q = 0 then ''0'' else (if q < 0 then ''-'' else []) @ ToString_pos \<bar>q\<bar>)"

text \<open>
  \<^verbatim>\<open>Number.prototype.toFixed(fractionDigits)\<close>: for \<open>\<bar>x\<bar> < 10 ^ 21\<close> the integer \<open>n\<close> with
  \<open>n / 10 ^ f\<close> closest to \<open>\<bar>x\<bar>\<close>, the larger one of two, printed with \<open>f\<close> digits after
  the point; from \<open>10 ^ 21\<close> on it is the plain Number to String conversion. An
  \<^verbatim>\<open>undefined\<close> argument counts as \<open>f = 0\<close>. (The unit class passes 0, 2, 5 and 8 only, so
  the RangeError for \<open>f\<close> outside the permitted range is not modelled.)
\<close>

definition fixed_digits :: "nat \<Rightarrow> nat \<Rightarrow> string" where
  "fixed_digits n f = (let m = dec_digits n in
     if f = 0 then m
     else let m' = replicate (f + 1 - length m) CHR ''0'' @ m; k = length m'
          in take (k - f) m' @ ''.'' @ drop (k - f) m')"

definition toFixed :: "jsnum \<Rightarrow> nat \<Rightarrow> string" where
  "toFixed x f = (case x of
       NaN \<Rightarrow> ''NaN''
     | PosInf \<Rightarrow> ''Infinity''
     | NegInf \<Rightarrow> ''-Infinity''
     | Fin q \<Rightarrow> (if q < 0 then ''-'' else []) @
         (if 10 ^ 21 \<le> \<bar>q\<bar> then ToString_pos \<bar>q\<bar>
          else fixed_digits (nat \<lfloor>\<bar>q\<bar> * 10 ^ f + 1 / 2\<rfloor>) f))"

text \<open>
  \<^verbatim>\<open>parseInt(string)\<close> and \<^verbatim>\<open>parseFloat(string)\<close> read the longest prefix that is a numeral
  and stop at the first other character; with no digit at all the result is \<open>NaN\<close>.
  \<^verbatim>\<open>parseInt\<close> knows no decimal point and no exponent. (Leading white space and a
  \<^verbatim>\<open>0x\<close> prefix, which \<open>toFixed\<close> never prints, are not modelled.)
\<close>

definition strip_sign :: "string \<Rightarrow> bool \<times> string" where
  "strip_sign s = (case s of
       [] \<Rightarrow> (False, [])
     | c # r \<Rightarrow> if c = CHR ''-'' then (True, r) else if c = CHR ''+'' then (False, r) else (False, s))"

definition signed :: "bool \<Rightarrow> rat \<Rightarrow> rat" where
  "signed neg v = (if neg then - v else v)"

definition parseInt :: "string \<Rightarrow> jsnum" where
  "parseInt s = (let (neg, r) = strip_sign s; ds = takeWhile is_digit r in
     if ds = [] then NaN else fl (signed neg (of_nat (digits_val ds))))"

definition exp_part :: "string \<Rightarrow> int" where
  "exp_part s = (case s of
       [] \<Rightarrow> 0
     | c # r \<Rightarrow>
         if c = CHR ''e'' \<or> c = CHR ''E'' then
           (let (neg, t) = strip_sign r; ds = takeWhile is_digit t in
            if ds = [] then 0 else if neg then - int (digits_val ds) else int (digits_val ds))
         else 0)"

definition frac_part :: "string \<Rightarrow> string \<times> string" where
  \<comment> \<open>the digits after a decimal point, and what follows them\<close>
  "frac_part s = (case s of
       [] \<Rightarrow> ([], [])
     | c # t \<Rightarrow> if c = CHR ''.'' then (takeWhile is_digit t, dropWhile is_digit t) else ([], s))"

definition parseFloat :: "string \<Rightarrow> jsnum" where
  "parseFloat s = (let (neg, r) = strip_sign s in
     if take 8 r = ''Infinity'' then (if neg then NegInf else PosInf)
     else let ip = takeWhile is_digit r; (fp, r2) = frac_part (dropWhile is_digit r) in
       if ip = [] \<and> fp = [] then NaN
       else fl (signed neg (of_nat (digits_val (ip @ fp)) * 10 powi (exp_part r2 - int (length fp)))))"

section \<open>The unit class of \<^verbatim>\<open>lib/unit.js\<close>\<close>

subsection \<open>The table of units\<close>

text \<open>
  \<^verbatim>\<open>var UNITS = { 'BLK': [1e8, 8], 'mBLK': [1e5, 5], 'uBLK': [1e2, 2], 'ratoshis': [1, 0] }\<close>
  is an object literal, so \<^verbatim>\<open>UNITS[code]\<close> finds the four entries and, through the
  prototype chain, the properties of \<^verbatim>\<open>Object.prototype\<close>, which are functions (and one
  object): truthy values whose elements 0 and 1 are \<^verbatim>\<open>undefined\<close>.
\<close>

datatype units_prop = Entry rat nat | Inherited | Undefined

definition object_prototype_names :: "string list" where
  "object_prototype_names =
     [''constructor'', ''toString'', ''toLocaleString'', ''valueOf'', ''hasOwnProperty'',
      ''isPrototypeOf'', ''propertyIsEnumerable'', ''__proto__'', ''__defineGetter__'',
      ''__defineSetter__'', ''__lookupGetter__'', ''__lookupSetter__'']"

definition UNITS :: "string \<Rightarrow> units_prop" where
  "UNITS code =
     (if code = ''BLK'' then Entry (10 ^ 8) 8
      else if code = ''mBLK'' then Entry (10 ^ 5) 5
      else if code = ''uBLK'' then Entry (10 ^ 2) 2
      else if code = ''ratoshis'' then Entry 1 0
      else if code \<in> set object_prototype_names then Inherited
      else Undefined)"

definition UNITS_keys :: "string list" where
  \<comment> \<open>\<^verbatim>\<open>Object.keys(UNITS)\<close>: the own enumerable properties, in order\<close>
  "UNITS_keys = [''BLK'', ''mBLK'', ''uBLK'', ''ratoshis'']"

fun elem0 :: "units_prop \<Rightarrow> jsnum" where
  \<comment> \<open>\<^verbatim>\<open>UNITS[code][0]\<close> as a Number; \<^verbatim>\<open>undefined\<close> converts to \<open>NaN\<close>\<close>
  "elem0 (Entry scale prec) = Fin scale"
| "elem0 _ = NaN"

fun elem1 :: "units_prop \<Rightarrow> nat" where
  \<comment> \<open>\<^verbatim>\<open>UNITS[code][1]\<close> as the argument of \<open>toFixed\<close>; \<^verbatim>\<open>undefined\<close> counts as 0\<close>
  "elem1 (Entry scale prec) = prec"
| "elem1 _ = 0"

subsection \<open>Arguments and errors\<close>

text \<open>
  The second argument of the constructor and the argument of \<^verbatim>\<open>to\<close> is a Number
  (\<^verbatim>\<open>_.isNumber(code)\<close> holds: an exchange rate) or any other value, which is only ever
  used as a property key of \<^verbatim>\<open>UNITS\<close> and is modelled by that key (\<^verbatim>\<open>undefined\<close> is the
  key \<open>''undefined''\<close>). The amount is a Number, as the documentation of the class
  types it.
\<close>

datatype codearg = Num jsnum | Key string

text \<open>
  Modelled from the spec: \<^verbatim>\<open>lib/errors\<close> and \<^verbatim>\<open>lib/util/preconditions\<close> are not among the
  sources. The spec gives two error kinds that carry the offending value,
  \<open>InvalidRate(value)\<close> and \<open>UnknownCode(value)\<close>, and a generic argument error raised by
  the precondition checker when its condition is false.
\<close>

datatype error = InvalidRate jsnum | UnknownCode string | InvalidArgument string

definition checkArgument :: "bool \<Rightarrow> string \<Rightarrow> error + unit" where
  "checkArgument cond msg = (if cond then Inr () else Inl (InvalidArgument msg))"

subsection \<open>Construction\<close>

text \<open>An instance holds one field, \<^verbatim>\<open>this._value\<close> (here \<open>u_value\<close>).\<close>

record unit_inst =
  u_value :: jsnum

definition Unit_BLK :: string where "Unit_BLK = ''BLK''"
definition Unit_mBLK :: string where "Unit_mBLK = ''mBLK''"
definition Unit_uBLK :: string where "Unit_uBLK = ''uBLK''"
definition Unit_ratoshis :: string where "Unit_ratoshis = ''ratoshis''"

definition Unit_from :: "jsnum \<Rightarrow> string \<Rightarrow> error + jsnum" where
  \<comment> \<open>\<^verbatim>\<open>Unit.prototype._from\<close>\<close>
  "Unit_from amount code =
     (if UNITS code = Undefined then Inl (UnknownCode code)
      else Inr (parseInt (toFixed (js_mul amount (elem0 (UNITS code))) 0)))"

definition Unit_new :: "jsnum \<Rightarrow> codearg \<Rightarrow> error + unit_inst" where
  \<comment> \<open>\<^verbatim>\<open>new Unit(amount, code)\<close>: the body of the constructor\<close>
  "Unit_new amount code =
     (case code of
        Num rate \<Rightarrow>
          if js_le_zero rate then Inl (InvalidRate rate)
          else map_sum id (\<lambda>v. \<lparr>u_value = v\<rparr>) (Unit_from (js_div amount rate) Unit_BLK)
      | Key k \<Rightarrow> map_sum id (\<lambda>v. \<lparr>u_value = v\<rparr>) (Unit_from amount k))"

text \<open>
  The constructor as a function: \<^verbatim>\<open>if (!(this instanceof Unit)) return new Unit(amount, code)\<close>.
  \<open>this_is_unit\<close> tells whether the call came through \<^verbatim>\<open>new\<close>.
\<close>

definition Unit :: "bool \<Rightarrow> jsnum \<Rightarrow> codearg \<Rightarrow> error + unit_inst" where
  "Unit this_is_unit amount code =
     (if \<not> this_is_unit then Unit_new amount code else Unit_new amount code)"

text \<open>
  The argument of \<^verbatim>\<open>fromObject\<close>: a value that is no object (\<^verbatim>\<open>_.isObject\<close> is false:
  \<^verbatim>\<open>undefined\<close>, \<^verbatim>\<open>null\<close>, a boolean, a number, a string), or an object, of which only
  the properties \<^verbatim>\<open>amount\<close> and \<^verbatim>\<open>code\<close> are read; either may be absent, and reads as
  \<^verbatim>\<open>undefined\<close> then.
\<close>

datatype jsdata = NonObject | Object "jsnum option" "codearg option"

fun isObject :: "jsdata \<Rightarrow> bool" where
  "isObject NonObject = False"
| "isObject (Object a c) = True"

fun data_amount :: "jsdata \<Rightarrow> jsnum" where
  \<comment> \<open>\<^verbatim>\<open>data.amount\<close> as the Number the arithmetic makes of it\<close>
  "data_amount (Object (Some a) c) = a"
| "data_amount _ = NaN"

fun data_code :: "jsdata \<Rightarrow> codearg" where
  "data_code (Object a (Some c)) = c"
| "data_code _ = Key ''undefined''"

definition Unit_fromObject :: "jsdata \<Rightarrow> error + unit_inst" where
  "Unit_fromObject data =
     (case checkArgument (isObject data) ''Argument is expected to be an object'' of
        Inl e \<Rightarrow> Inl e
      | Inr _ \<Rightarrow> Unit_new (data_amount data) (data_code data))"

definition Unit_fromBLK :: "jsnum \<Rightarrow> error + unit_inst" where
  "Unit_fromBLK amount = Unit_new amount (Key Unit_BLK)"

definition Unit_fromMillis :: "jsnum \<Rightarrow> error + unit_inst" where
  "Unit_fromMillis amount = Unit_new amount (Key Unit_mBLK)"

definition Unit_fromMilis :: "jsnum \<Rightarrow> error + unit_inst" where
  "Unit_fromMilis = Unit_fromMillis"

definition Unit_fromMicros :: "jsnum \<Rightarrow> error + unit_inst" where
  "Unit_fromMicros amount = Unit_new amount (Key Unit_uBLK)"

definition Unit_fromBits :: "jsnum \<Rightarrow> error + unit_inst" where
  "Unit_fromBits = Unit_fromMicros"

definition Unit_fromRatoshis :: "jsnum \<Rightarrow> error + unit_inst" where
  "Unit_fromRatoshis amount = Unit_new amount (Key Unit_ratoshis)"

definition Unit_fromFiat :: "jsnum \<Rightarrow> jsnum \<Rightarrow> error + unit_inst" where
  "Unit_fromFiat amount rate = Unit_new amount (Num rate)"

subsection \<open>Conversion\<close>

definition to_code :: "unit_inst \<Rightarrow> string \<Rightarrow> error + jsnum" where
  \<comment> \<open>the second half of \<^verbatim>\<open>Unit.prototype.to\<close>, for a code that is no Number\<close>
  "to_code u code =
     (if UNITS code = Undefined then Inl (UnknownCode code)
      else Inr (parseFloat (toFixed (js_div (u_value u) (elem0 (UNITS code))) (elem1 (UNITS code)))))"

definition accessor :: "unit_inst \<Rightarrow> string \<Rightarrow> error + jsnum" where
  \<comment> \<open>the getter that the constructor defines for each key of \<^verbatim>\<open>UNITS\<close>:
      \<^verbatim>\<open>get: function() { return self.to(key); }\<close>\<close>
  "accessor u key = to_code u key"

definition Unit_to :: "unit_inst \<Rightarrow> codearg \<Rightarrow> error + jsnum" where
  "Unit_to u code =
     (case code of
        Num rate \<Rightarrow>
          if js_le_zero rate then Inl (InvalidRate rate)
          else (case accessor u ''BLK'' of
                  Inl e \<Rightarrow> Inl e
                | Inr blk \<Rightarrow> Inr (parseFloat (toFixed (js_mul blk rate) 2)))
      | Key k \<Rightarrow> to_code u k)"

definition Unit_toBLK :: "unit_inst \<Rightarrow> error + jsnum" where
  "Unit_toBLK u = Unit_to u (Key Unit_BLK)"

definition Unit_toMillis :: "unit_inst \<Rightarrow> error + jsnum" where
  "Unit_toMillis u = Unit_to u (Key Unit_mBLK)"

definition Unit_toMilis :: "unit_inst \<Rightarrow> error + jsnum" where
  "Unit_toMilis = Unit_toMillis"

definition Unit_toMicros :: "unit_inst \<Rightarrow> error + jsnum" where
  "Unit_toMicros u = Unit_to u (Key Unit_uBLK)"

definition Unit_toRatoshis :: "unit_inst \<Rightarrow> error + jsnum" where
  "Unit_toRatoshis u = Unit_to u (Key Unit_ratoshis)"

definition Unit_atRate :: "unit_inst \<Rightarrow> jsnum \<Rightarrow> error + jsnum" where
  "Unit_atRate u rate = Unit_to u (Num rate)"

definition Unit_toString :: "unit_inst \<Rightarrow> error + string" where
  "Unit_toString u =
     (case accessor u ''ratoshis'' of
        Inl e \<Rightarrow> Inl e
      | Inr r \<Rightarrow> Inr (ToString r @ '' ratoshis''))"

record plain_object =
  amount :: jsnum
  code :: string

definition Unit_toObject :: "unit_inst \<Rightarrow> error + plain_object" where
  "Unit_toObject u =
     (case accessor u ''BLK'' of
        Inl e \<Rightarrow> Inl e
      | Inr blk \<Rightarrow> Inr \<lparr>amount = blk, code = Unit_BLK\<rparr>)"

definition Unit_toJSON :: "unit_inst \<Rightarrow> error + plain_object" where
  "Unit_toJSON = Unit_toObject"

definition Unit_inspect :: "unit_inst \<Rightarrow> error + string" where
  "Unit_inspect u =
     (case Unit_toString u of
        Inl e \<Rightarrow> Inl e
      | Inr str \<Rightarrow> Inr (''<Unit: '' @ str @ ''>''))"

subsection \<open>Calls on an instance\<close>

text \<open>
  The constructor function is reachable from every instance, as \<^verbatim>\<open>u.constructor\<close> (the
  \<^verbatim>\<open>constructor\<close> property of \<^verbatim>\<open>Unit.prototype\<close>). Called as \<^verbatim>\<open>u.constructor(amount, code)\<close>,
  \<^verbatim>\<open>this\<close> is the instance \<open>u\<close>: \<^verbatim>\<open>this instanceof Unit\<close> holds, so the first line does not
  return; the rate is checked and \<^verbatim>\<open>_from\<close> is called as for a new object, an error of
  either leaving \<open>u\<close> as it was; then \<^verbatim>\<open>this._value = ...\<close> assigns the field of \<open>u\<close>, an
  ordinary writable property. After the assignment the accessors are defined, and \<open>u\<close>
  has them already: its first construction defined them with \<^verbatim>\<open>Object.defineProperty\<close>,
  so they are not configurable, and defining \<^verbatim>\<open>BLK\<close> again with another getter function
  raises a \<^verbatim>\<open>TypeError\<close>. What is raised is an error of the library or that \<^verbatim>\<open>TypeError\<close>.
\<close>

datatype raised = Thrown error | TypeError

definition Unit_on_instance :: "unit_inst \<Rightarrow> jsnum \<Rightarrow> codearg \<Rightarrow> raised \<times> unit_inst" where
  \<comment> \<open>the body of the constructor with an instance as \<^verbatim>\<open>this\<close>: what is raised, and the
      instance afterwards\<close>
  "Unit_on_instance u amt cd =
     (case cd of
        Num rate \<Rightarrow>
          if js_le_zero rate then (Thrown (InvalidRate rate), u)
          else (case Unit_from (js_div amt rate) Unit_BLK of
                  Inl e \<Rightarrow> (Thrown e, u)
                | Inr v \<Rightarrow> (TypeError, u\<lparr>u_value := v\<rparr>))
      | Key k \<Rightarrow>
          (case Unit_from amt k of
             Inl e \<Rightarrow> (Thrown e, u)
           | Inr v \<Rightarrow> (TypeError, u\<lparr>u_value := v\<rparr>)))"

text \<open>
  A call on an instance: what it returns or raises, and the instance after it. The bodies
  of the methods and of the getters are single \<^verbatim>\<open>return\<close> statements that read \<^verbatim>\<open>this\<close> and
  assign nothing, so the instance after such a call is the instance before it; the one
  assignment of the class, \<^verbatim>\<open>this._value = this._from(amount, code)\<close>, is in the
  constructor. \<open>Get key\<close> reads the accessor that the constructor defined under that name;
  the names are the keys of \<^verbatim>\<open>UNITS\<close>, and under any other name there is no accessor to
  call. \<open>Constructor amt cd\<close> is the call \<^verbatim>\<open>u.constructor(amount, code)\<close> with those arguments.
\<close>

datatype unit_call =
    To codearg | ToBLK | ToMillis | ToMilis | ToMicros | ToRatoshis | AtRate jsnum
  | ToStr | ToObject | ToJSON | Inspect | Get string
  | Constructor jsnum codearg


datatype outcome = Number jsnum | Text string | Plain plain_object | NoAccessor

definition returned :: "('a \<Rightarrow> outcome) \<Rightarrow> error + 'a \<Rightarrow> raised + outcome" where
  "returned f r = map_sum Thrown f r"

definition invoke :: "unit_call \<Rightarrow> unit_inst \<Rightarrow> (raised + outcome) \<times> unit_inst" where
  "invoke m u =
     (case m of
        To c \<Rightarrow> (returned Number (Unit_to u c), u)
      | ToBLK \<Rightarrow> (returned Number (Unit_toBLK u), u)
      | ToMillis \<Rightarrow> (returned Number (Unit_toMillis u), u)
      | ToMilis \<Rightarrow> (returned Number (Unit_toMilis u), u)
      | ToMicros \<Rightarrow> (returned Number (Unit_toMicros u), u)
      | ToRatoshis \<Rightarrow> (returned Number (Unit_toRatoshis u), u)
      | AtRate r \<Rightarrow> (returned Number (Unit_atRate u r), u)
      | ToStr \<Rightarrow> (returned Text (Unit_toString u), u)
      | ToObject \<Rightarrow> (returned Plain (Unit_toObject u), u)
      | ToJSON \<Rightarrow> (returned Plain (Unit_toJSON u), u)
      | Inspect \<Rightarrow> (returned Text (Unit_inspect u), u)
      | Get key \<Rightarrow>
          (if key \<in> set UNITS_keys then returned Number (accessor u key) else Inr NoAccessor, u)
      | Constructor a c \<Rightarrow> (let (e, u') = Unit_on_instance u a c in (Inl e, u')))"


text \<open>Making an instance from a fiat amount and converting it back at the same rate.\<close>

definition fiat_round_trip :: "jsnum \<Rightarrow> jsnum \<Rightarrow> error + jsnum" where
  "fiat_round_trip a rate =
     (case Unit_fromFiat a rate of
        Inl e \<Rightarrow> Inl e
      | Inr u \<Rightarrow> Unit_atRate u rate)"

section \<open>Rounding as the specification words it\<close>

definition round_half_away_from_zero :: "rat \<Rightarrow> int" where
  "round_half_away_from_zero x = (if 0 \<le> x then \<lfloor>x + 1 / 2\<rfloor> else - \<lfloor>- x + 1 / 2\<rfloor>)"

definition round_places :: "nat \<Rightarrow> rat \<Rightarrow> rat" where
  \<comment> \<open>\<open>round(x, d decimal places)\<close>\<close>
  "round_places d x = of_int (round_half_away_from_zero (x * 10 ^ d)) / 10 ^ d"

definition js_round_places :: "nat \<Rightarrow> jsnum \<Rightarrow> jsnum" where
  \<comment> \<open>the same on Numbers: the Number value of the rounded decimal; \<open>NaN\<close> and the
      infinities stay\<close>
  "js_round_places d x = (case x of Fin q \<Rightarrow> fl (round_places d q) | _ \<Rightarrow> x)"

section \<open>Properties of the number model\<close>

subsection \<open>Exponents\<close>

lemma powi_add1: "(x::rat) \<noteq> 0 \<Longrightarrow> x powi (m + 1) = x powi m * x"
  by (rule power_int_add_1) simp

lemma log_up_bounds:
  "2 \<le> b \<Longrightarrow> 1 \<le> q \<Longrightarrow>
   0 \<le> log_up b q \<and> of_nat b powi (log_up b q) \<le> q \<and> q < of_nat b powi (log_up b q + 1)"
proof (induction b q rule: log_up.induct)
  case (1 b q)
  have b0: "(of_nat b :: rat) \<noteq> 0" "(0::rat) < of_nat b" using "1.prems" by auto
  show ?case
  proof (cases "q < of_nat b")
    case True
    then show ?thesis using "1.prems" by (simp add: log_up.simps [of b q])
  next
    case False
    then have c: "\<not> (b < 2 \<or> q < of_nat b)" using "1.prems" by simp
    have "1 \<le> q / of_nat b" using False b0 by (simp add: le_divide_eq)
    from "1.IH" [OF c "1.prems"(1) this]
    have ih: "0 \<le> log_up b (q / of_nat b)"
      "of_nat b powi (log_up b (q / of_nat b)) \<le> q / of_nat b"
      "q / of_nat b < of_nat b powi (log_up b (q / of_nat b) + 1)" by auto
    have e: "log_up b q = log_up b (q / of_nat b) + 1"
      using c by (subst log_up.simps) simp
    have "(of_nat b :: rat) powi (log_up b (q / of_nat b) + 1) = of_nat b powi (log_up b (q / of_nat b)) * of_nat b"
      using b0(1) by (rule powi_add1)
    moreover have "(of_nat b :: rat) powi (log_up b (q / of_nat b) + 1 + 1) = of_nat b powi (log_up b (q / of_nat b) + 1) * of_nat b"
      using b0(1) by (rule powi_add1)
    ultimately show ?thesis
      using ih b0 unfolding e by (simp add: pos_le_divide_eq pos_divide_less_eq)
  qed
qed

lemma log_down_bounds:
  "2 \<le> b \<Longrightarrow> 0 < q \<Longrightarrow> q < 1 \<Longrightarrow>
   log_down b q < 0 \<and> of_nat b powi (log_down b q) \<le> q \<and> q < of_nat b powi (log_down b q + 1)"
proof (induction b q rule: log_down.induct)
  case (1 b q)
  have b0: "(of_nat b :: rat) \<noteq> 0" "(0::rat) < of_nat b" using "1.prems" by auto
  have c: "\<not> (b < 2 \<or> q \<le> 0 \<or> 1 \<le> q)" using "1.prems" by simp
  have e: "log_down b q = log_down b (q * of_nat b) - 1"
    using c by (subst log_down.simps) simp
  show ?case
  proof (cases "1 \<le> q * of_nat b")
    case True
    then have "log_down b (q * of_nat b) = 0" by (subst log_down.simps) simp
    then show ?thesis
      using True "1.prems" b0 unfolding e
      by (simp add: power_int_minus field_simps)
  next
    case False
    then have "q * of_nat b < 1" by simp
    moreover have "0 < q * of_nat b" using "1.prems" b0 by simp
    ultimately have ih: "log_down b (q * of_nat b) < 0"
      "of_nat b powi (log_down b (q * of_nat b)) \<le> q * of_nat b"
      "q * of_nat b < of_nat b powi (log_down b (q * of_nat b) + 1)"
      using "1.IH" [OF c "1.prems"(1)] by auto
    have "(of_nat b :: rat) powi (log_down b (q * of_nat b) - 1 + 1) = of_nat b powi (log_down b (q * of_nat b) - 1) * of_nat b"
      using b0(1) by (rule powi_add1)
    moreover have "(of_nat b :: rat) powi (log_down b (q * of_nat b) + 1) = of_nat b powi (log_down b (q * of_nat b)) * of_nat b"
      using b0(1) by (rule powi_add1)
    ultimately show ?thesis
      using ih b0 unfolding e by simp
  qed
qed

lemma ilog_bounds:
  assumes "2 \<le> b" "0 < q"
  shows "of_nat b powi (ilog b q) \<le> q" "q < of_nat b powi (ilog b q + 1)"
  using log_up_bounds [OF assms(1), of q] log_down_bounds [OF assms(1), of q] assms(2)
  by (auto simp: ilog_def not_le)

lemma ilog_unique:
  assumes "2 \<le> b" "of_nat b powi e \<le> q" "q < of_nat b powi (e + 1)"
  shows "ilog b q = e"
proof -
  have b1: "(1::rat) < of_nat b" using assms(1) by simp
  have "(0::rat) < of_nat b powi e" using b1 by simp
  then have q: "0 < q" using assms(2) by linarith
  note B = ilog_bounds [OF assms(1) q]
  have "of_nat b powi e < (of_nat b :: rat) powi (ilog b q + 1)"
    using assms(2) B(2) by linarith
  then have "e < ilog b q + 1"
    by (metis b1 linorder_not_less power_int_increasing less_imp_le)
  moreover have "of_nat b powi (ilog b q) < (of_nat b :: rat) powi (e + 1)"
    using assms(3) B(1) by linarith
  then have "ilog b q < e + 1"
    by (metis b1 linorder_not_less power_int_increasing less_imp_le)
  ultimately show ?thesis by simp
qed

subsection \<open>Rounding to binary64\<close>

lemma round_even_of_int: "round_even (of_int m) = m"
  by (simp add: round_even_def)

lemma round_even_err: "\<bar>of_int (round_even x) - x\<bar> \<le> 1 / 2"
proof -
  have "of_int \<lfloor>x\<rfloor> \<le> x" "x < of_int \<lfloor>x\<rfloor> + 1" by linarith+
  then show ?thesis
    by (auto simp: round_even_def Let_def abs_le_iff)
qed

lemma round_even_near:
  assumes "\<bar>x - of_int m\<bar> < 1 / 2"
  shows "round_even x = m"
proof -
  have e: "\<bar>of_int (round_even x) - x\<bar> \<le> 1 / 2" by (rule round_even_err)
  have "\<bar>(of_int (round_even x) :: rat) - of_int m\<bar> < 1"
    using assms e by linarith
  then have "\<bar>of_int (round_even x - m) :: rat\<bar> < 1" by simp
  then have "\<bar>round_even x - m\<bar> < 1"
    by (metis of_int_abs of_int_less_1_iff)
  then show ?thesis by simp
qed

lemma round_even_abs_le:
  assumes "\<bar>x\<bar> \<le> of_int n"
  shows "\<bar>round_even x\<bar> \<le> n"
proof -
  have e: "\<bar>of_int (round_even x) - x\<bar> \<le> 1 / 2" by (rule round_even_err)
  have "\<bar>of_int (round_even x) :: rat\<bar> \<le> of_int n + 1 / 2" using assms e by linarith
  then have "(of_int \<bar>round_even x\<bar> :: rat) < of_int (n + 1)" by simp
  then have "\<bar>round_even x\<bar> < n + 1" by (simp only: of_int_less_iff)
  then show ?thesis by simp
qed

lemma round_even_abs_ge:
  assumes "of_int n \<le> \<bar>x\<bar>"
  shows "n \<le> \<bar>round_even x\<bar>"
proof -
  have e: "\<bar>of_int (round_even x) - x\<bar> \<le> 1 / 2" by (rule round_even_err)
  have "(of_int n :: rat) - 1 / 2 \<le> \<bar>of_int (round_even x)\<bar>" using assms e by linarith
  then have "(of_int (n - 1) :: rat) < of_int \<bar>round_even x\<bar>" by simp
  then have "n - 1 < \<bar>round_even x\<bar>" by (simp only: of_int_less_iff)
  then show ?thesis by simp
qed

lemma two_powi_pos: "(0::rat) < 2 powi p"
  by simp

lemma fl_unfold:
  assumes "q \<noteq> 0"
  shows "fl q = (let r = of_int (round_even (q / 2 powi fexp q)) * 2 powi fexp q
                 in if 2 ^ 1024 \<le> \<bar>r\<bar> then (if 0 < r then PosInf else NegInf) else Fin r)"
  using assms by (simp add: fl_def Let_def)

lemma ilog2_bounds:
  assumes "q \<noteq> 0"
  shows "2 powi (ilog 2 \<bar>q\<bar>) \<le> \<bar>q\<bar>" "\<bar>q\<bar> < 2 powi (ilog 2 \<bar>q\<bar> + 1)"
  using ilog_bounds [of 2 "\<bar>q\<bar>"] assms by simp_all

lemma ilog2_unique:
  assumes "2 powi e \<le> \<bar>q\<bar>" "\<bar>q\<bar> < 2 powi (e + 1)"
  shows "ilog 2 \<bar>q\<bar> = e"
  using ilog_unique [of 2 e "\<bar>q\<bar>"] assms by simp

lemma powi_split: "(2::rat) powi (a + b) = 2 powi a * 2 powi b"
  by (rule power_int_add) simp

lemma powi_diff: "(2::rat) powi (a - b) = 2 powi a / 2 powi b"
  by (rule power_int_diff) simp

lemma powi_mono: "a \<le> b \<Longrightarrow> (2::rat) powi a \<le> 2 powi b"
  by (rule power_int_increasing) simp_all

lemma powi_less_cancel: "(2::rat) powi a < 2 powi b \<Longrightarrow> a < b"
  by (metis linorder_not_less powi_mono)

lemma powi_nonneg_int: "0 \<le> p \<Longrightarrow> (2::rat) powi p = of_int (2 ^ nat p)"
  by (simp add: power_int_def)

text \<open>the scaled mantissa is below 2^53 in absolute value\<close>
lemma mant_bound:
  assumes "q \<noteq> 0"
  shows "\<bar>q / 2 powi fexp q\<bar> < 2 ^ 53"
proof -
  have "\<bar>q\<bar> < 2 powi (ilog 2 \<bar>q\<bar> + 1)" by (rule ilog2_bounds [OF assms])
  also have "\<dots> \<le> 2 powi (fexp q + 53)"
    by (rule powi_mono) (simp add: fexp_def)
  also have "\<dots> = 2 powi fexp q * 2 ^ 53"
    by (simp add: powi_split)
  finally have "\<bar>q\<bar> / 2 powi fexp q < 2 ^ 53"
    by (simp add: pos_divide_less_eq mult.commute)
  then show ?thesis by (simp add: abs_divide)
qed

lemma fl_Fin_decomp:
  assumes "fl q = Fin x" "q \<noteq> 0"
  shows "x = of_int (round_even (q / 2 powi fexp q)) * 2 powi fexp q"
    and "\<bar>round_even (q / 2 powi fexp q)\<bar> \<le> 2 ^ 53"
    and "\<bar>x\<bar> < 2 ^ 1024"
proof -
  let ?r = "of_int (round_even (q / 2 powi fexp q)) * (2::rat) powi fexp q"
  have c: "\<not> 2 ^ 1024 \<le> \<bar>?r\<bar>" and x: "x = ?r"
    using assms by (auto simp: fl_unfold Let_def split: if_splits)
  show "x = ?r" by (rule x)
  show "\<bar>x\<bar> < 2 ^ 1024" using c x by simp
  have "\<bar>q / 2 powi fexp q\<bar> \<le> of_int (2 ^ 53)"
    using mant_bound [OF assms(2)] by simp
  then show "\<bar>round_even (q / 2 powi fexp q)\<bar> \<le> 2 ^ 53"
    by (rule round_even_abs_le)
qed

lemma fexp_le:
  assumes "q = of_int m * 2 powi p" "q \<noteq> 0" "\<bar>m\<bar> < 2 ^ 53" "- 1074 \<le> p"
  shows "fexp q \<le> p"
proof -
  have "2 powi (ilog 2 \<bar>q\<bar>) \<le> \<bar>q\<bar>" by (rule ilog2_bounds [OF assms(2)])
  also have "\<bar>q\<bar> = of_int \<bar>m\<bar> * 2 powi p"
    by (simp add: assms(1) abs_mult)
  also have "\<dots> < 2 ^ 53 * 2 powi p"
  proof -
    have "(of_int \<bar>m\<bar> :: rat) < of_int (2 ^ 53)" using assms(3) by (simp only: of_int_less_iff)
    then show ?thesis by (simp add: mult_strict_right_mono)
  qed
  also have "\<dots> = 2 powi (53 + p)" by (simp add: powi_split)
  finally have "ilog 2 \<bar>q\<bar> < 53 + p" by (rule powi_less_cancel)
  then show ?thesis using assms(4) by (simp add: fexp_def)
qed

lemma fl_exact:
  assumes "q = of_int m * 2 powi p" "\<bar>m\<bar> < 2 ^ 53" "- 1074 \<le> p" "\<bar>q\<bar> < 2 ^ 1024"
  shows "fl q = Fin q"
proof (cases "q = 0")
  case True
  then show ?thesis by (simp add: fl_def)
next
  case False
  have le: "fexp q \<le> p" by (rule fexp_le [OF assms(1) False assms(2,3)])
  have "q / 2 powi fexp q = of_int m * 2 powi (p - fexp q)"
    by (simp add: assms(1) powi_diff)
  also have "\<dots> = of_int (m * 2 ^ nat (p - fexp q))"
    using le by (simp add: powi_nonneg_int)
  finally have "round_even (q / 2 powi fexp q) = m * 2 ^ nat (p - fexp q)"
    by (simp only: round_even_of_int)
  then have "of_int (round_even (q / 2 powi fexp q)) * (2::rat) powi fexp q
      = of_int m * 2 powi (p - fexp q) * 2 powi fexp q"
    using le by (simp add: powi_nonneg_int)
  also have "\<dots> = q" by (simp add: assms(1) powi_diff)
  finally show ?thesis
    using False assms(4) by (simp add: fl_unfold Let_def)
qed

lemma fl_idem:
  assumes "fl q = Fin x"
  shows "fl x = Fin x"
proof (cases "q = 0")
  case True
  then show ?thesis using assms by (auto simp: fl_def)
next
  case False
  let ?m = "round_even (q / 2 powi fexp q)"
  note D = fl_Fin_decomp [OF assms False]
  have p: "- 1074 \<le> fexp q" by (simp add: fexp_def)
  show ?thesis
  proof (cases "\<bar>?m\<bar> < 2 ^ 53")
    case True
    show ?thesis by (rule fl_exact [OF D(1) True p D(3)])
  next
    case False
    then have m: "\<bar>?m\<bar> = 2 ^ 53" using D(2) by simp
    define k where "k = ?m"
    have k: "k = 9007199254740992 \<or> k = - 9007199254740992"
      using m unfolding k_def [symmetric] by (simp add: abs_if split: if_splits)
    have "k = 2 * (k div 2)" "\<bar>k div 2\<bar> < 2 ^ 53" using k by auto
    then have ev: "?m = 2 * (?m div 2)" and lt: "\<bar>?m div 2\<bar> < 2 ^ 53"
      unfolding k_def by simp_all
    have "x = of_int (2 * (?m div 2)) * 2 powi fexp q" using D(1) ev by simp
    also have "\<dots> = of_int (?m div 2) * 2 powi (fexp q + 1)"
      by (simp add: powi_split)
    finally have x: "x = of_int (?m div 2) * 2 powi (fexp q + 1)" .
    show ?thesis by (rule fl_exact [OF x lt _ D(3)]) (use p in simp)
  qed
qed

lemma fl_of_int:
  assumes "\<bar>n\<bar> < 2 ^ 53"
  shows "fl (of_int n) = Fin (of_int n)"
proof (rule fl_exact [where m = n and p = 0])
  show "rat_of_int n = of_int n * 2 powi 0" by simp
  show "\<bar>n\<bar> < 2 ^ 53" by (rule assms)
  show "- 1074 \<le> (0::int)" by simp
  have "\<bar>rat_of_int n\<bar> = of_int \<bar>n\<bar>" by simp
  also have "\<dots> < of_int (2 ^ 53)" using assms by (simp only: of_int_less_iff)
  also have "\<dots> < 2 ^ 1024" by simp
  finally show "\<bar>rat_of_int n\<bar> < 2 ^ 1024" .
qed

lemma fl_error:
  assumes "fl q = Fin x"
  shows "\<bar>x - q\<bar> \<le> 2 powi (fexp q - 1)"
proof (cases "q = 0")
  case True
  then show ?thesis using assms by (auto simp: fl_def)
next
  case False
  note D = fl_Fin_decomp [OF assms False]
  have "\<bar>of_int (round_even (q / 2 powi fexp q)) - q / 2 powi fexp q\<bar> \<le> 1 / 2"
    by (rule round_even_err)
  then have "\<bar>of_int (round_even (q / 2 powi fexp q)) - q / 2 powi fexp q\<bar> * 2 powi fexp q
      \<le> 1 / 2 * 2 powi fexp q"
    by (rule mult_right_mono) simp
  moreover have "\<bar>of_int (round_even (q / 2 powi fexp q)) - q / 2 powi fexp q\<bar> * 2 powi fexp q
      = \<bar>x - q\<bar>"
  proof -
    have "x - q = (of_int (round_even (q / 2 powi fexp q)) - q / 2 powi fexp q) * 2 powi fexp q"
      unfolding D(1) by (simp add: left_diff_distrib)
    then show ?thesis by (simp add: abs_mult)
  qed
  moreover have "1 / 2 * (2::rat) powi fexp q = 2 powi (fexp q - 1)"
    by (simp add: powi_diff)
  ultimately show ?thesis by simp
qed

subsection \<open>Printing and reading decimal numerals\<close>

lemma mod10_cases:
  "(d::nat) mod 10 = 0 \<or> d mod 10 = 1 \<or> d mod 10 = 2 \<or> d mod 10 = 3 \<or> d mod 10 = 4
   \<or> d mod 10 = 5 \<or> d mod 10 = 6 \<or> d mod 10 = 7 \<or> d mod 10 = 8 \<or> d mod 10 = 9"
  by presburger

lemma digit_val_digit_of: "digit_val (digit_of d) = d mod 10"
  using mod10_cases [of d]
  by (auto simp: digit_val_def digit_of_def digit_chars_def)

lemma is_digit_digit_of: "is_digit (digit_of d)"
  using mod10_cases [of d]
  by (auto simp: is_digit_def digit_of_def digit_chars_def)

lemma is_digit_simps:
  "\<not> is_digit CHR ''-''" "\<not> is_digit CHR ''+''" "\<not> is_digit CHR ''.''"
  "\<not> is_digit CHR ''e''" "\<not> is_digit CHR ''E''" "\<not> is_digit CHR ''I''" "\<not> is_digit CHR ''N''"
  "is_digit CHR ''0''"
  by (simp_all add: is_digit_def digit_chars_def)

lemma digit_val_0: "digit_val CHR ''0'' = 0"
  by (simp add: digit_val_def digit_chars_def)

lemma digits_val_snoc: "digits_val (ds @ [c]) = 10 * digits_val ds + digit_val c"
  by (simp add: digits_val_def)

lemma digits_val_append:
  "digits_val (xs @ ys) = digits_val xs * 10 ^ length ys + digits_val ys"
proof (induction ys rule: rev_induct)
  case Nil
  show ?case by (simp add: digits_val_def)
next
  case (snoc c ys)
  have "digits_val (xs @ ys @ [c]) = 10 * digits_val (xs @ ys) + digit_val c"
    using digits_val_snoc [of "xs @ ys" c] by simp
  then show ?case by (simp add: snoc digits_val_snoc algebra_simps)
qed

lemma foldl_zeros:
  "foldl (\<lambda>a c. 10 * a + digit_val c) a (replicate z CHR ''0'') = a * 10 ^ z"
  by (induction z arbitrary: a) (simp_all add: digit_val_0)

lemma digits_val_zeros: "digits_val (replicate z CHR ''0'') = 0"
  by (simp add: digits_val_def foldl_zeros)

lemma dec_digits_props:
  "dec_digits n \<noteq> [] \<and> (\<forall>c\<in>set (dec_digits n). is_digit c) \<and> digits_val (dec_digits n) = n"
proof (induction n rule: dec_digits.induct)
  case (1 n)
  show ?case
  proof (cases "n < 10")
    case True
    then show ?thesis
      by (simp add: dec_digits.simps [of n] is_digit_digit_of digits_val_def digit_val_digit_of)
  next
    case False
    then have e: "dec_digits n = dec_digits (n div 10) @ [digit_of (n mod 10)]"
      by (subst dec_digits.simps) simp
    show ?thesis
      using "1.IH" [OF False]
      by (simp add: e is_digit_digit_of digits_val_snoc digit_val_digit_of)
  qed
qed

lemma dec_digits_nonempty: "dec_digits n \<noteq> []"
  and dec_digits_all: "c \<in> set (dec_digits n) \<Longrightarrow> is_digit c"
  and digits_val_dec_digits: "digits_val (dec_digits n) = n"
  using dec_digits_props [of n] by auto

lemma takeWhile_digits:
  assumes "\<forall>c\<in>set ds. is_digit c" "rest = [] \<or> \<not> is_digit (hd rest)"
  shows "takeWhile is_digit (ds @ rest) = ds" "dropWhile is_digit (ds @ rest) = rest"
proof -
  have r: "takeWhile is_digit rest = []" "dropWhile is_digit rest = rest"
    using assms(2) by (cases rest; auto)+
  show "takeWhile is_digit (ds @ rest) = ds"
    using assms(1) r by (simp add: takeWhile_append2)
  show "dropWhile is_digit (ds @ rest) = rest"
    using assms(1) r by (simp add: dropWhile_append2)
qed

lemma strip_sign_digits:
  assumes "ds \<noteq> []" "is_digit (hd ds)"
  shows "strip_sign ds = (False, ds)" "strip_sign (''-'' @ ds) = (True, ds)"
proof -
  obtain c r where ds: "ds = c # r" using assms(1) by (cases ds) auto
  then have "is_digit c" using assms(2) by simp
  then have "c \<noteq> CHR ''-''" "c \<noteq> CHR ''+''" using is_digit_simps by auto
  then show "strip_sign ds = (False, ds)" by (simp add: strip_sign_def ds)
  show "strip_sign (''-'' @ ds) = (True, ds)" by (simp add: strip_sign_def)
qed

lemma strip_sign_toFixed:
  assumes "ds \<noteq> []" "is_digit (hd ds)"
  shows "strip_sign ((if neg then ''-'' else []) @ ds) = (neg, ds)"
  using strip_sign_digits [OF assms] by simp

lemma signed_round:
  "signed (q < 0) (of_nat (nat \<lfloor>\<bar>q\<bar> * 10 ^ f + 1 / 2\<rfloor>)) = of_int (round_half_away_from_zero (q * 10 ^ f))"
proof -
  have nn: "0 \<le> \<lfloor>\<bar>q\<bar> * 10 ^ f + 1 / 2\<rfloor>" by (simp add: zero_le_floor)
  have z: "(0 \<le> q * 10 ^ f) = (0 \<le> q)"
  proof (cases "0 \<le> q")
    case True
    then show ?thesis by simp
  next
    case False
    then have "q * 10 ^ f < 0" by (simp add: mult_neg_pos)
    then show ?thesis using False by simp
  qed
  show ?thesis
    using nn by (simp add: signed_def round_half_away_from_zero_def z abs_if not_less)
qed

lemma toFixed_Fin:
  assumes "\<bar>q\<bar> < 10 ^ 21"
  shows "toFixed (Fin q) f
    = (if q < 0 then ''-'' else []) @ fixed_digits (nat \<lfloor>\<bar>q\<bar> * 10 ^ f + 1 / 2\<rfloor>) f"
  using assms by (simp add: toFixed_def)

lemma parseInt_toFixed:
  assumes "\<bar>q\<bar> < 10 ^ 21"
  shows "parseInt (toFixed (Fin q) 0) = fl (of_int (round_half_away_from_zero q))"
proof -
  define N where "N = nat \<lfloor>\<bar>q\<bar> * 10 ^ 0 + 1 / 2\<rfloor>"
  define ds where "ds = dec_digits N"
  have ne: "ds \<noteq> []" unfolding ds_def by (rule dec_digits_nonempty)
  have all: "\<forall>c\<in>set ds. is_digit c" unfolding ds_def using dec_digits_all by auto
  have tf: "toFixed (Fin q) 0 = (if q < 0 then ''-'' else []) @ ds"
    unfolding toFixed_Fin [OF assms] N_def [symmetric] by (simp add: fixed_digits_def ds_def)
  have hd: "is_digit (hd ds)" using ne all by (cases ds) auto
  have ss: "strip_sign (toFixed (Fin q) 0) = (q < 0, ds)"
    unfolding tf by (rule strip_sign_toFixed [OF ne hd])
  have tw: "takeWhile is_digit ds = ds"
    using takeWhile_digits(1) [of ds "[]"] all by auto
  have dv: "digits_val ds = N" unfolding ds_def by (rule digits_val_dec_digits)
  have "parseInt (toFixed (Fin q) 0) = fl (signed (q < 0) (of_nat N))"
    by (simp add: parseInt_def ss tw ne dv)
  also have "signed (q < 0) (of_nat N) = of_int (round_half_away_from_zero (q * 10 ^ 0))"
    unfolding N_def by (rule signed_round)
  finally show ?thesis by simp
qed

lemma not_Infinity:
  assumes "r \<noteq> []" "is_digit (hd r)"
  shows "take 8 r \<noteq> ''Infinity''"
proof
  assume a: "take 8 r = ''Infinity''"
  obtain c t where r: "r = c # t" using assms(1) by (cases r) auto
  have "c = CHR ''I''" using a unfolding r by simp
  then show False using assms(2) r is_digit_simps by simp
qed

lemma parseFloat_toFixed:
  assumes "\<bar>q\<bar> < 10 ^ 21"
  shows "parseFloat (toFixed (Fin q) f) = fl (round_places f q)"
proof -
  define N where "N = nat \<lfloor>\<bar>q\<bar> * 10 ^ f + 1 / 2\<rfloor>"
  define m where "m = dec_digits N"
  have sr: "signed (q < 0) (of_nat N) = of_int (round_half_away_from_zero (q * 10 ^ f))"
    unfolding N_def by (rule signed_round)
  have m_ne: "m \<noteq> []" unfolding m_def by (rule dec_digits_nonempty)
  have m_all: "\<forall>c\<in>set m. is_digit c" unfolding m_def using dec_digits_all by auto
  have m_val: "digits_val m = N" unfolding m_def by (rule digits_val_dec_digits)
  have tf0: "toFixed (Fin q) f = (if q < 0 then ''-'' else []) @ fixed_digits N f"
    unfolding N_def by (rule toFixed_Fin [OF assms])
  show ?thesis
  proof (cases "f = 0")
    case True
    have tf: "toFixed (Fin q) f = (if q < 0 then ''-'' else []) @ m"
      unfolding tf0 by (simp add: fixed_digits_def True m_def)
    have hd: "is_digit (hd m)" using m_ne m_all by (cases m) auto
    have ss: "strip_sign (toFixed (Fin q) f) = (q < 0, m)"
      unfolding tf by (rule strip_sign_toFixed [OF m_ne hd])
    have tw: "takeWhile is_digit m = m" "dropWhile is_digit m = []"
      using takeWhile_digits [of m "[]"] m_all by auto
    have "parseFloat (toFixed (Fin q) f) = fl (signed (q < 0) (of_nat N * 10 powi 0))"
      using not_Infinity [OF m_ne hd]
      by (simp add: parseFloat_def ss tw frac_part_def exp_part_def m_ne m_val)
    then show ?thesis using sr True by (simp add: round_places_def)
  next
    case False
    define m' where "m' = replicate (f + 1 - length m) CHR ''0'' @ m"
    define k where "k = length m'"
    define ip where "ip = take (k - f) m'"
    define fp where "fp = drop (k - f) m'"
    have kf: "f + 1 \<le> k" unfolding k_def m'_def by simp
    have all: "\<forall>c\<in>set m'. is_digit c"
      unfolding m'_def using m_all is_digit_simps by auto
    have ipfp: "ip @ fp = m'" unfolding ip_def fp_def by simp
    have ip_all: "\<forall>c\<in>set ip. is_digit c" and fp_all: "\<forall>c\<in>set fp. is_digit c"
      using all unfolding ip_def fp_def by (auto dest: in_set_takeD in_set_dropD)
    have ip_ne: "ip \<noteq> []" using kf unfolding ip_def k_def by auto
    have lfp: "length fp = f" using kf unfolding fp_def k_def by simp
    define r where "r = ip @ ''.'' @ fp"
    have r_ne: "r \<noteq> []" unfolding r_def by simp
    have hd: "is_digit (hd r)" unfolding r_def using ip_ne ip_all by (cases ip) auto
    have fd: "fixed_digits N f = r"
      unfolding fixed_digits_def Let_def r_def ip_def fp_def k_def m'_def m_def
      using False by (simp only: if_False)
    have tf: "toFixed (Fin q) f = (if q < 0 then ''-'' else []) @ r"
      unfolding tf0 fd ..
    have ss: "strip_sign (toFixed (Fin q) f) = (q < 0, r)"
      unfolding tf by (rule strip_sign_toFixed [OF r_ne hd])
    have tw: "takeWhile is_digit r = ip" "dropWhile is_digit r = CHR ''.'' # fp"
      unfolding r_def using takeWhile_digits [of ip "''.'' @ fp"] ip_all is_digit_simps by auto
    have tw2: "takeWhile is_digit fp = fp" "dropWhile is_digit fp = []"
      using takeWhile_digits [of fp "[]"] fp_all by auto
    have fr: "frac_part (CHR ''.'' # fp) = (fp, [])"
      by (simp add: frac_part_def tw2)
    have dv: "digits_val (ip @ fp) = N"
      unfolding ipfp m'_def by (simp add: digits_val_append digits_val_zeros m_val)
    have ni: "take 8 r \<noteq> ''Infinity''"
      by (rule not_Infinity [OF r_ne hd])
    have "parseFloat (toFixed (Fin q) f) = fl (signed (q < 0) (of_nat N * 10 powi (- int f)))"
      using ni ip_ne
      by (simp add: parseFloat_def ss tw fr exp_part_def dv lfp)
    also have "signed (q < 0) (of_nat N * 10 powi (- int f))
        = signed (q < 0) (of_nat N) / 10 ^ f"
      by (simp add: signed_def power_int_minus divide_inverse)
    finally show ?thesis using sr by (simp add: round_places_def)
  qed
qed

subsection \<open>Evaluation\<close>

lemma fl_numeral:
  "(numeral k :: int) < 2 ^ 53 \<Longrightarrow> fl (numeral k) = Fin (numeral k)"
  using fl_of_int [of "numeral k"] by simp

lemma fl_neg_numeral:
  "(numeral k :: int) < 2 ^ 53 \<Longrightarrow> fl (- numeral k) = Fin (- numeral k)"
  using fl_of_int [of "- numeral k"] by simp

lemma fl_0: "fl 0 = Fin 0"
  by (simp add: fl_def)

lemma fl_1: "fl 1 = Fin 1"
  using fl_of_int [of 1] by simp

lemma rha_of_int: "round_half_away_from_zero (of_int n) = n"
proof -
  have "\<lfloor>rat_of_int n + 1 / 2\<rfloor> = n" "\<lfloor>- rat_of_int n + 1 / 2\<rfloor> = - n"
    by (simp_all add: floor_eq_iff)
  then show ?thesis by (simp add: round_half_away_from_zero_def)
qed

lemma rha_numeral: "round_half_away_from_zero (numeral k) = numeral k"
  using rha_of_int [of "numeral k"] by simp

lemma rha_0: "round_half_away_from_zero 0 = 0"
  using rha_of_int [of 0] by simp

lemma rha_1: "round_half_away_from_zero 1 = 1"
  using rha_of_int [of 1] by simp

lemma rha_small: "0 \<le> x \<Longrightarrow> x < 1 / 2 \<Longrightarrow> round_half_away_from_zero x = 0"
  by (simp add: round_half_away_from_zero_def floor_eq_iff)

lemmas unit_defs =
  Unit_def Unit_new_def Unit_from_def Unit_to_def to_code_def accessor_def
  Unit_fromBLK_def Unit_fromMillis_def Unit_fromMicros_def Unit_fromRatoshis_def Unit_fromFiat_def
  Unit_toBLK_def Unit_toMillis_def Unit_toMicros_def Unit_toRatoshis_def Unit_atRate_def
  Unit_BLK_def Unit_mBLK_def Unit_uBLK_def Unit_ratoshis_def UNITS_def

lemmas eval_simps =
  parseInt_toFixed parseFloat_toFixed round_places_def
  fl_numeral fl_0 fl_1 rha_numeral rha_0 rha_1

subsection \<open>Rounding to integers and to decimal places\<close>

lemma rha_err: "\<bar>of_int (round_half_away_from_zero y) - y\<bar> \<le> 1 / 2"
proof (cases "0 \<le> y")
  case True
  have "of_int \<lfloor>y + 1 / 2\<rfloor> \<le> y + 1 / 2" "y + 1 / 2 < of_int \<lfloor>y + 1 / 2\<rfloor> + 1"
    by linarith+
  then have "\<bar>of_int \<lfloor>y + 1 / 2\<rfloor> - y\<bar> \<le> 1 / 2" by linarith
  then show ?thesis using True by (simp add: round_half_away_from_zero_def)
next
  case False
  have "of_int \<lfloor>- y + 1 / 2\<rfloor> \<le> - y + 1 / 2" "- y + 1 / 2 < of_int \<lfloor>- y + 1 / 2\<rfloor> + 1"
    by linarith+
  then have "\<bar>- of_int \<lfloor>- y + 1 / 2\<rfloor> - y\<bar> \<le> 1 / 2" by linarith
  then show ?thesis using False by (simp add: round_half_away_from_zero_def)
qed

lemma rha_near:
  assumes "\<bar>y - of_int n\<bar> < 1 / 2"
  shows "round_half_away_from_zero y = n"
proof -
  have e: "\<bar>of_int (round_half_away_from_zero y) - y\<bar> \<le> 1 / 2" by (rule rha_err)
  have "\<bar>(of_int (round_half_away_from_zero y) :: rat) - of_int n\<bar> < 1"
    using assms e by linarith
  then have "\<bar>of_int (round_half_away_from_zero y - n) :: rat\<bar> < 1" by simp
  then have "\<bar>round_half_away_from_zero y - n\<bar> < 1"
    by (metis of_int_abs of_int_less_1_iff)
  then show ?thesis by simp
qed

lemma rha_abs_le:
  assumes "\<bar>y\<bar> \<le> of_int n"
  shows "\<bar>round_half_away_from_zero y\<bar> \<le> n"
proof -
  have e: "\<bar>of_int (round_half_away_from_zero y) - y\<bar> \<le> 1 / 2" by (rule rha_err)
  have "\<bar>of_int (round_half_away_from_zero y) :: rat\<bar> \<le> of_int n + 1 / 2"
    using assms e by linarith
  then have "(of_int \<bar>round_half_away_from_zero y\<bar> :: rat) < of_int (n + 1)" by simp
  then have "\<bar>round_half_away_from_zero y\<bar> < n + 1" by (simp only: of_int_less_iff)
  then show ?thesis by simp
qed

lemma round_places_of_int: "round_places d (of_int n) = of_int n"
proof -
  have "rat_of_int n * 10 ^ d = of_int (n * 10 ^ d)" by simp
  then have "round_half_away_from_zero (rat_of_int n * 10 ^ d) = n * 10 ^ d"
    by (simp only: rha_of_int)
  then show ?thesis by (simp add: round_places_def)
qed

lemma round_places_err: "\<bar>round_places d y - y\<bar> \<le> 1 / (2 * 10 ^ d)"
proof -
  have "\<bar>of_int (round_half_away_from_zero (y * 10 ^ d)) - y * 10 ^ d\<bar> \<le> 1 / 2"
    by (rule rha_err)
  then have "\<bar>of_int (round_half_away_from_zero (y * 10 ^ d)) - y * 10 ^ d\<bar> / 10 ^ d
      \<le> (1 / 2) / 10 ^ d"
    by (rule divide_right_mono) simp
  moreover have "\<bar>of_int (round_half_away_from_zero (y * 10 ^ d)) - y * 10 ^ d\<bar> / 10 ^ d
      = \<bar>round_places d y - y\<bar>"
  proof -
    have "round_places d y - y
        = (of_int (round_half_away_from_zero (y * 10 ^ d)) - y * 10 ^ d) / 10 ^ d"
      by (simp add: round_places_def diff_divide_distrib)
    then show ?thesis by (simp add: abs_divide)
  qed
  ultimately show ?thesis by simp
qed

text \<open>A binary64 value of absolute value at least \<open>2 ^ 52\<close> is an integer.\<close>

lemma fl_large_is_int:
  assumes "fl q = Fin x" "2 ^ 52 \<le> \<bar>x\<bar>"
  shows "\<exists>n. x = of_int n"
proof -
  have q: "q \<noteq> 0" using assms by (auto simp: fl_def)
  let ?m = "round_even (q / 2 powi fexp q)"
  note D = fl_Fin_decomp [OF assms(1) q]
  show ?thesis
  proof (cases "0 \<le> fexp q")
    case True
    then have "x = of_int (?m * 2 ^ nat (fexp q))"
      using D(1) by (simp add: powi_nonneg_int)
    then show ?thesis ..
  next
    case False
    then have "(2::rat) powi fexp q \<le> 2 powi (- 1)" by (intro powi_mono) simp
    then have h: "(2::rat) powi fexp q \<le> 1 / 2" by (simp add: power_int_minus)
    have "(of_int \<bar>?m\<bar> :: rat) \<le> of_int (2 ^ 53)" using D(2) by (simp only: of_int_le_iff)
    then have m: "(of_int \<bar>?m\<bar> :: rat) \<le> 2 ^ 53" by simp
    have "\<bar>x\<bar> = of_int \<bar>?m\<bar> * 2 powi fexp q" unfolding D(1) by (simp add: abs_mult)
    also have "\<dots> \<le> 2 ^ 53 * (1 / 2)"
      using m h by (intro mult_mono) simp_all
    finally have "\<bar>x\<bar> \<le> 2 ^ 52" by simp
    then have "\<bar>x\<bar> = of_int (2 ^ 52)" using assms(2) by simp
    then have "x = of_int (2 ^ 52) \<or> x = of_int (- (2 ^ 52))"
      by (auto simp: abs_if split: if_splits)
    then show ?thesis by blast
  qed
qed

lemma fl_rha:
  assumes "fl x = Fin x"
  shows "fl (of_int (round_half_away_from_zero x)) = Fin (of_int (round_half_away_from_zero x))"
proof (cases "2 ^ 52 \<le> \<bar>x\<bar>")
  case True
  then obtain n where "x = of_int n" using fl_large_is_int [OF assms] by blast
  then show ?thesis using assms by (simp add: rha_of_int)
next
  case False
  then have "\<bar>x\<bar> \<le> of_int (2 ^ 52)" by simp
  then have "\<bar>round_half_away_from_zero x\<bar> \<le> 2 ^ 52" by (rule rha_abs_le)
  then have "\<bar>round_half_away_from_zero x\<bar> < 2 ^ 53" by simp
  then show ?thesis by (rule fl_of_int)
qed

text \<open>The Number value of an integer is an integer.\<close>

lemma fl_int_is_int:
  assumes "fl (of_int n) = Fin x"
  shows "\<exists>k. x = of_int k"
proof (cases "\<bar>n\<bar> < 2 ^ 53")
  case True
  then show ?thesis using assms fl_of_int [OF True] by auto
next
  case False
  then have n: "2 ^ 53 \<le> \<bar>n\<bar>" by simp
  have q: "rat_of_int n \<noteq> 0" using n by auto
  have "(2::rat) powi 53 = of_int (2 ^ 53)" by simp
  also have "\<dots> \<le> of_int \<bar>n\<bar>" using n by (simp only: of_int_le_iff)
  also have "\<dots> = \<bar>rat_of_int n\<bar>" by simp
  also have "\<dots> < 2 powi (ilog 2 \<bar>rat_of_int n\<bar> + 1)" by (rule ilog2_bounds [OF q])
  finally have "53 < ilog 2 \<bar>rat_of_int n\<bar> + 1" by (rule powi_less_cancel)
  then have p: "0 \<le> fexp (rat_of_int n)" by (simp add: fexp_def)
  note D = fl_Fin_decomp [OF assms q]
  have "x = of_int (round_even (rat_of_int n / 2 powi fexp (rat_of_int n)) * 2 ^ nat (fexp (rat_of_int n)))"
    using D(1) p by (simp add: powi_nonneg_int)
  then show ?thesis ..
qed

lemma round_even_minus: "round_even (- x) = - round_even x"
proof (cases "x = of_int \<lfloor>x\<rfloor>")
  case True
  then obtain n where "x = of_int n" ..
  then have "- x = of_int (- n)" by simp
  then show ?thesis using \<open>x = of_int n\<close> by (simp only: round_even_of_int)
next
  case False
  have lo: "of_int \<lfloor>x\<rfloor> < x" using False by (metis of_int_floor_le order_le_less)
  have hi: "x < of_int \<lfloor>x\<rfloor> + 1" by linarith
  have f: "\<lfloor>- x\<rfloor> = - \<lfloor>x\<rfloor> - 1"
    using lo hi by (simp add: floor_eq_iff)
  show ?thesis
    using lo hi by (auto simp: round_even_def Let_def f)
qed

lemma fl_minus_Fin:
  assumes "fl q = Fin x"
  shows "fl (- q) = Fin (- x)"
proof (cases "q = 0")
  case True
  then show ?thesis using assms by (auto simp: fl_def)
next
  case False
  have e: "fexp (- q) = fexp q" by (simp add: fexp_def)
  note D = fl_Fin_decomp [OF assms False]
  have "round_even (- q / 2 powi fexp q) = - round_even (q / 2 powi fexp q)"
    using round_even_minus [of "q / 2 powi fexp q"] by simp
  then show ?thesis
    using False D(1,3) by (simp add: fl_unfold e Let_def)
qed

lemma fl_same_binade:
  assumes m: "2 ^ 52 < \<bar>m\<bar>" "\<bar>m\<bar> < 2 ^ 53"
    and p: "- 1074 \<le> p"
    and near: "\<bar>t / 2 powi p - of_int m\<bar> < 1 / 2"
    and fin: "\<bar>of_int m * (2::rat) powi p\<bar> < 2 ^ 1024"
  shows "fl t = Fin (of_int m * 2 powi p)"
proof -
  define a where "a = t / 2 powi p"
  have ta: "t = a * 2 powi p" unfolding a_def by simp
  have m1: "(of_int (2 ^ 52 + 1) :: rat) \<le> of_int \<bar>m\<bar>"
    using m(1) by (simp only: of_int_le_iff)
  have m2: "(of_int \<bar>m\<bar> :: rat) \<le> of_int (2 ^ 53 - 1)"
    using m(2) by (simp only: of_int_le_iff)
  have m1': "(4503599627370497::rat) \<le> \<bar>rat_of_int m\<bar>" using m1 by simp
  have m2': "\<bar>rat_of_int m\<bar> \<le> (9007199254740991::rat)" using m2 by simp
  have "\<bar>\<bar>a\<bar> - \<bar>rat_of_int m\<bar>\<bar> < 1 / 2"
    using near unfolding a_def [symmetric] by linarith
  then have "\<bar>rat_of_int m\<bar> - 1 / 2 < \<bar>a\<bar>" "\<bar>a\<bar> < \<bar>rat_of_int m\<bar> + 1 / 2"
    by linarith+
  then have "(4503599627370496::rat) \<le> \<bar>a\<bar>" "\<bar>a\<bar> < (9007199254740992::rat)"
    using m1' m2' by linarith+
  then have lo: "2 ^ 52 \<le> \<bar>a\<bar>" and hi: "\<bar>a\<bar> < 2 ^ 53"
    by simp_all
  have abs_t: "\<bar>t\<bar> = \<bar>a\<bar> * 2 powi p" unfolding ta by (simp add: abs_mult)
  have "2 powi (p + 52) = 2 ^ 52 * (2::rat) powi p" by (simp add: powi_split)
  also have "\<dots> \<le> \<bar>t\<bar>" unfolding abs_t using lo by (simp add: mult_right_mono)
  finally have b1: "2 powi (p + 52) \<le> \<bar>t\<bar>" .
  have "\<bar>t\<bar> < 2 ^ 53 * 2 powi p" unfolding abs_t using hi by (simp add: mult_strict_right_mono)
  also have "\<dots> = 2 powi (p + 52 + 1)" by (simp add: powi_split)
  finally have b2: "\<bar>t\<bar> < 2 powi (p + 52 + 1)" .
  have "ilog 2 \<bar>t\<bar> = p + 52" by (rule ilog2_unique [OF b1 b2])
  then have fe: "fexp t = p" using p by (simp add: fexp_def)
  have t0: "t \<noteq> 0"
  proof
    assume "t = 0"
    with b1 have "(2::rat) powi (p + 52) \<le> 0" by simp
    moreover have "(0::rat) < 2 powi (p + 52)" by (rule two_powi_pos)
    ultimately show False by linarith
  qed
  have re: "round_even (t / 2 powi p) = m" by (rule round_even_near [OF near])
  show ?thesis using fin by (simp add: fl_unfold [OF t0] fe re Let_def)
qed

text \<open>
  Dividing an integer by \<open>10 ^ 8\<close>, printing the quotient with 8 decimals and reading it
  back gives the quotient again: the double nearest to \<open>M / 10 ^ 8\<close> is the double nearest
  to its own 8-decimal rounding.
\<close>

lemma blk_round_trip:
  assumes "fl (of_int M / 10 ^ 8) = Fin d"
  shows "fl (round_places 8 d) = Fin d"
proof (cases "rat_of_int M / 10 ^ 8 = 0")
  case True
  then have "d = of_int 0" using assms by (simp add: fl_def)
  then show ?thesis by (simp only: round_places_of_int) (simp add: fl_0)
next
  case False
  define q where "q = rat_of_int M / 10 ^ 8"
  define p where "p = fexp q"
  define m where "m = round_even (q / 2 powi p)"
  have q0: "q \<noteq> 0" using False by (simp add: q_def)
  have flq: "fl q = Fin d" using assms by (simp add: q_def)
  note D = fl_Fin_decomp [OF flq q0, folded p_def, folded m_def]
  have err: "\<bar>d - q\<bar> \<le> 2 powi (p - 1)"
    using fl_error [OF flq] by (simp add: p_def)
  define t where "t = round_places 8 d"
  have terr: "\<bar>t - d\<bar> \<le> 1 / 200000000"
    using round_places_err [of 8 d] by (simp add: t_def)
  show ?thesis
  proof (cases "p \<le> - 27")
    case True
    then have "(2::rat) powi (p - 1) \<le> 2 powi (- 28)" by (intro powi_mono) simp
    also have "(2::rat) powi (- 28) = 1 / 268435456" by simp
    finally have "\<bar>d - q\<bar> \<le> 1 / 268435456" using err by simp
    then have "\<bar>d - q\<bar> * 10 ^ 8 \<le> (1 / 268435456) * 10 ^ 8"
      by (rule mult_right_mono) simp
    moreover have "\<bar>d - q\<bar> * 10 ^ 8 = \<bar>d * 10 ^ 8 - of_int M\<bar>"
    proof -
      have "d * 10 ^ 8 - of_int M = (d - q) * 10 ^ 8" by (simp add: q_def left_diff_distrib)
      then have "\<bar>d * 10 ^ 8 - of_int M\<bar> = \<bar>(d - q) * 10 ^ 8\<bar>" by (simp only:)
      also have "\<dots> = \<bar>d - q\<bar> * 10 ^ 8" by (rule abs_mult_pos [symmetric]) simp
      finally show ?thesis by simp
    qed
    ultimately have "\<bar>d * 10 ^ 8 - of_int M\<bar> < 1 / 2" by simp
    then have "round_half_away_from_zero (d * 10 ^ 8) = M" by (rule rha_near)
    then have "round_places 8 d = q" by (simp add: round_places_def q_def)
    then show ?thesis using flq by simp
  next
    case False
    then have p26: "- 26 \<le> p" by simp
    have pe: "p = ilog 2 \<bar>q\<bar> - 52" using p26 by (simp add: p_def fexp_def)
    have "2 powi (p + 52) \<le> \<bar>q\<bar>" using ilog2_bounds(1) [OF q0] pe by simp
    then have "2 powi p * 2 ^ 52 \<le> \<bar>q\<bar>" by (simp add: powi_split)
    then have "2 ^ 52 \<le> \<bar>q\<bar> / 2 powi p" by (simp add: pos_le_divide_eq mult.commute)
    then have "of_int (2 ^ 52) \<le> \<bar>q / 2 powi p\<bar>" by (simp add: abs_divide)
    then have mlo: "2 ^ 52 \<le> \<bar>m\<bar>" unfolding m_def by (rule round_even_abs_ge)
    show ?thesis
    proof (cases "\<bar>m\<bar> = 2 ^ 52 \<or> \<bar>m\<bar> = 2 ^ 53")
      case True
      then obtain k where k: "m = k * 2 ^ 52"
        by (auto simp: abs_if split: if_splits intro: that [of 1] that [of 2] that [of "- 1"] that [of "- 2"])
      have "d = of_int k * (2 powi 52 * 2 powi p)" unfolding D(1) k by simp
      also have "\<dots> = of_int k * 2 powi (52 + p)" by (simp only: powi_split)
      also have "\<dots> = of_int (k * 2 ^ nat (52 + p))"
        using p26 by (simp add: powi_nonneg_int)
      finally have "round_places 8 d = d" by (simp only: round_places_of_int)
      then show ?thesis using fl_idem [OF flq] by simp
    next
      case False
      then have mb: "2 ^ 52 < \<bar>m\<bar>" "\<bar>m\<bar> < 2 ^ 53" using mlo D(2) by auto
      have p74: "- 1074 \<le> p" using p26 by simp
      have "(2::rat) powi (- 26) \<le> 2 powi p" using p26 by (intro powi_mono)
      moreover have "(2::rat) powi (- 26) = 1 / 67108864" by simp
      ultimately have pl: "1 / 67108864 \<le> (2::rat) powi p" by simp
      have "t / 2 powi p - of_int m = (t - d) / 2 powi p" unfolding D(1) by (simp add: diff_divide_distrib)
      then have "\<bar>t / 2 powi p - of_int m\<bar> = \<bar>t - d\<bar> / 2 powi p" by (simp add: abs_divide)
      also have "\<dots> \<le> (1 / 200000000) / 2 powi p" using terr by (rule divide_right_mono) simp
      also have "\<dots> \<le> (1 / 200000000) / (1 / 67108864)" using pl by (intro divide_left_mono) simp_all
      also have "\<dots> < 1 / 2" by simp
      finally have near: "\<bar>t / 2 powi p - of_int m\<bar> < 1 / 2" .
      have "fl t = Fin (of_int m * 2 powi p)"
        by (rule fl_same_binade [OF mb p74 near]) (use D in simp)
      then show ?thesis using D(1) by (simp add: t_def)
    qed
  qed
qed

subsection \<open>Printing and reading from \<open>10 ^ 21\<close> on\<close>

lemma dec_digits_length:
  "0 < k \<Longrightarrow> 10 ^ (k - 1) \<le> n \<Longrightarrow> n < 10 ^ k \<Longrightarrow> length (dec_digits n) = k"
proof (induction k arbitrary: n)
  case 0
  then show ?case by simp
next
  case (Suc k)
  show ?case
  proof (cases "n < 10")
    case True
    have "k = 0"
    proof (rule ccontr)
      assume "k \<noteq> 0"
      then have "(10::nat) ^ 1 \<le> 10 ^ k" by (intro power_increasing) simp_all
      then show False using Suc.prems(2) True by simp
    qed
    then show ?thesis using True by (simp add: dec_digits.simps [of n])
  next
    case False
    then have e: "dec_digits n = dec_digits (n div 10) @ [digit_of (n mod 10)]"
      by (subst dec_digits.simps) simp
    have k: "0 < k"
    proof (rule ccontr)
      assume "\<not> 0 < k"
      then show False using Suc.prems(3) False by simp
    qed
    then obtain j where j: "k = Suc j" by (cases k) auto
    have lo: "10 ^ (k - 1) \<le> n div 10"
    proof -
      have "10 ^ (k - 1) * 10 \<le> n" using Suc.prems(2) by (simp add: j)
      then show ?thesis by (simp add: less_eq_div_iff_mult_less_eq)
    qed
    have hi: "n div 10 < 10 ^ k"
      using Suc.prems(3) by (simp add: div_less_iff_less_mult mult.commute)
    show ?thesis using Suc.IH [OF k lo hi] by (simp add: e)
  qed
qed

lemma shortest_found:
  assumes "\<exists>j<fuel. filter (digits_ok x n (k + j)) (digits_cand x n (k + j)) \<noteq> []"
  shows "case shortest fuel x n k of
           (s, k') \<Rightarrow> k \<le> k' \<and> s \<in> set (digits_cand x n k') \<and> digits_ok x n k' s"
  using assms
proof (induction fuel arbitrary: k)
  case 0
  then show ?case by simp
next
  case (Suc fuel)
  show ?case
  proof (cases "filter (digits_ok x n k) (digits_cand x n k)")
    case (Cons s rest)
    then have "s \<in> set (filter (digits_ok x n k) (digits_cand x n k))" by simp
    then have "s \<in> set (digits_cand x n k) \<and> digits_ok x n k s" by simp
    then show ?thesis by (simp add: Cons)
  next
    case Nil
    from Suc.prems obtain j where j: "j < Suc fuel"
      "filter (digits_ok x n (k + j)) (digits_cand x n (k + j)) \<noteq> []" by blast
    have "j \<noteq> 0" using j(2) Nil by (cases j) auto
    then obtain i where i: "j = Suc i" by (cases j) auto
    have "\<exists>j<fuel. filter (digits_ok x n (Suc k + j)) (digits_cand x n (Suc k + j)) \<noteq> []"
      using j i by (intro exI [of _ i]) simp
    from Suc.IH [OF this] show ?thesis using Nil by (auto split: prod.splits)
  qed
qed

lemma ten_powi_less_cancel: "(10::rat) powi a < 10 powi b \<Longrightarrow> a < b"
  by (metis linorder_not_less power_int_increasing one_le_numeral)

lemma ten_powi_split: "(10::rat) powi (a + b) = 10 powi a * 10 powi b"
  by (rule power_int_add) simp

lemma ten_powi_nat: "0 \<le> p \<Longrightarrow> (10::rat) powi p = of_int (10 ^ nat p)"
  by (simp add: power_int_def)

lemma cand_bounds:
  assumes x: "10 powi (n - 1) \<le> x" "x < 10 powi n" and k: "0 < k"
    and s: "s \<in> set (digits_cand x n k)"
  shows "10 ^ (k - 1) \<le> s" "s \<le> 10 ^ k"
proof -
  define y where "y = x * 10 powi (int k - n)"
  have "(10::rat) powi (n - 1) * 10 powi (int k - n) = 10 powi (n - 1 + (int k - n))"
    by (simp only: ten_powi_split)
  also have "n - 1 + (int k - n) = int (k - 1)" using k by simp
  finally have e1: "(10::rat) powi (n - 1) * 10 powi (int k - n) = of_int (10 ^ (k - 1))" by simp
  have "(10::rat) powi n * 10 powi (int k - n) = 10 powi (n + (int k - n))"
    by (simp only: ten_powi_split)
  then have e2: "(10::rat) powi n * 10 powi (int k - n) = of_int (10 ^ k)" by simp
  have pos: "(0::rat) < 10 powi (int k - n)" by simp
  have "of_int (10 ^ (k - 1)) \<le> y"
    unfolding y_def e1 [symmetric] using x(1) pos by (simp add: mult_right_mono)
  then have lo: "10 ^ (k - 1) \<le> \<lfloor>y\<rfloor>" by (simp only: le_floor_iff)
  have "y < of_int (10 ^ k)"
    unfolding y_def e2 [symmetric] using x(2) pos by (simp add: mult_strict_right_mono)
  then have hi: "\<lfloor>y\<rfloor> < 10 ^ k" by (simp only: floor_less_iff)
  have "s = \<lfloor>y\<rfloor> \<or> s = \<lfloor>y\<rfloor> + 1"
    using s unfolding digits_cand_def y_def [symmetric] Let_def by (auto split: if_splits)
  then show "10 ^ (k - 1) \<le> s" "s \<le> 10 ^ k" using lo hi by auto
qed

lemma cand_exact:
  assumes "x = of_int z" "0 \<le> n"
  shows "digits_cand x n (nat n) = [z, z + 1]"
proof -
  have "int (nat n) - n = 0" using assms(2) by simp
  then show ?thesis by (simp add: digits_cand_def Let_def assms(1))
qed

lemma exp_part_plus: "exp_part (CHR ''e'' # CHR ''+'' # dec_digits E) = int E"
proof -
  have tw: "takeWhile is_digit (dec_digits E) = dec_digits E"
    using takeWhile_digits(1) [of "dec_digits E" "[]"] dec_digits_all by auto
  show ?thesis
    by (simp add: exp_part_def strip_sign_def tw dec_digits_nonempty digits_val_dec_digits)
qed

lemma parseFloat_exp_form:
  assumes ds: "ds \<noteq> []" "\<forall>c\<in>set ds. is_digit c"
  shows "parseFloat ((if neg then ''-'' else []) @
           (if length ds = 1 then ds @ CHR ''e'' # CHR ''+'' # dec_digits E
            else hd ds # CHR ''.'' # tl ds @ CHR ''e'' # CHR ''+'' # dec_digits E))
         = fl (signed neg (of_nat (digits_val ds) * 10 powi (int E - int (length ds - 1))))"
proof -
  obtain c t where ct: "ds = c # t" using ds(1) by (cases ds) auto
  have c: "is_digit c" and t: "\<forall>c\<in>set t. is_digit c" using ds(2) ct by auto
  define ex where "ex = CHR ''e'' # CHR ''+'' # dec_digits E"
  have ex_hd: "ex = [] \<or> \<not> is_digit (hd ex)" unfolding ex_def using is_digit_simps by simp
  have ep: "exp_part ex = int E" unfolding ex_def by (rule exp_part_plus)
  have fr0: "frac_part ex = ([], ex)" unfolding ex_def by (simp add: frac_part_def)
  show ?thesis
  proof (cases "t = []")
    case True
    define r where "r = c # ex"
    have r: "r \<noteq> []" "is_digit (hd r)" unfolding r_def using c by simp_all
    have ss: "strip_sign ((if neg then ''-'' else []) @ r) = (neg, r)"
      by (rule strip_sign_toFixed [OF r])
    have tw: "takeWhile is_digit r = [c]" "dropWhile is_digit r = ex"
      unfolding r_def using takeWhile_digits [of "[c]" ex] c ex_hd by auto
    have "parseFloat ((if neg then ''-'' else []) @ r) = fl (signed neg (of_nat (digits_val [c]) * 10 powi int E))"
      using not_Infinity [OF r] by (simp add: parseFloat_def ss tw fr0 ep)
    then show ?thesis unfolding r_def ex_def ct True by simp
  next
    case False
    define r where "r = c # CHR ''.'' # t @ ex"
    have r: "r \<noteq> []" "is_digit (hd r)" unfolding r_def using c by simp_all
    have ss: "strip_sign ((if neg then ''-'' else []) @ r) = (neg, r)"
      by (rule strip_sign_toFixed [OF r])
    have tw: "takeWhile is_digit r = [c]" "dropWhile is_digit r = CHR ''.'' # t @ ex"
      unfolding r_def using takeWhile_digits [of "[c]" "CHR ''.'' # t @ ex"] c is_digit_simps by auto
    have tw2: "takeWhile is_digit (t @ ex) = t" "dropWhile is_digit (t @ ex) = ex"
      using takeWhile_digits [of t ex] t ex_hd by auto
    have fr: "frac_part (CHR ''.'' # t @ ex) = (t, ex)"
      by (simp add: frac_part_def tw2)
    have "parseFloat ((if neg then ''-'' else []) @ r)
        = fl (signed neg (of_nat (digits_val ([c] @ t)) * 10 powi (int E - int (length t))))"
      using not_Infinity [OF r] by (simp add: parseFloat_def ss tw fr ep)
    then show ?thesis unfolding r_def ex_def ct using False by simp
  qed
qed

lemma format_digits_exp:
  assumes "21 < n"
  shows "format_digits s k n = (let ds = dec_digits (nat s) in
     if k = 1 then ds @ CHR ''e'' # CHR ''+'' # dec_digits (nat (n - 1))
     else hd ds # CHR ''.'' # tl ds @ CHR ''e'' # CHR ''+'' # dec_digits (nat (n - 1)))"
proof -
  have "\<bar>n - 1\<bar> = n - 1" using assms by simp
  then show ?thesis using assms by (simp add: format_digits_def Let_def)
qed

lemma ToString_pos_parse:
  assumes rep: "fl x = Fin x" and big: "10 ^ 21 \<le> x"
  shows "parseFloat ((if neg then ''-'' else []) @ ToString_pos x) = Fin (signed neg x)"
proof -
  define n where "n = ilog 10 x + 1"
  have x0: "0 < x" using big by (rule less_le_trans [rotated]) simp
  have B: "10 powi (n - 1) \<le> x" "x < 10 powi n"
    using ilog_bounds [of 10 x] x0 by (simp_all add: n_def)
  have "(10::rat) powi 21 \<le> x" using big by simp
  then have "(10::rat) powi 21 < 10 powi n" using B(2) by (rule le_less_trans)
  then have n22: "21 < n" by (rule ten_powi_less_cancel)
  have fin: "\<bar>x\<bar> < 2 ^ 1024" using rep x0 fl_Fin_decomp(3) [of x x] by simp
  have "(10::rat) powi (n - 1) \<le> x" by (rule B(1))
  also have "x < 2 ^ 1024" using fin x0 by simp
  also have "(2::rat) ^ 1024 < 10 powi 309" by simp
  finally have n309: "n \<le> 309" using ten_powi_less_cancel [of "n - 1" 309] by simp
  have "(2::rat) ^ 52 \<le> 10 ^ 21" by simp
  then have "2 ^ 52 \<le> \<bar>x\<bar>" using big by simp
  then obtain z where z: "x = of_int z" using fl_large_is_int [OF rep] by blast
  have n0: "0 \<le> n" using n22 by simp
  have ce: "digits_cand x n (nat n) = [z, z + 1]" by (rule cand_exact [OF z n0])
  have "digits_ok x n (nat n) z" using rep n0 by (simp add: digits_ok_def z)
  then have ne: "filter (digits_ok x n (nat n)) (digits_cand x n (nat n)) \<noteq> []"
    by (simp add: ce)
  have "\<exists>j<767. filter (digits_ok x n (1 + j)) (digits_cand x n (1 + j)) \<noteq> []"
  proof (intro exI conjI)
    show "nat n - 1 < 767" using n309 by simp
    show "filter (digits_ok x n (1 + (nat n - 1))) (digits_cand x n (1 + (nat n - 1))) \<noteq> []"
      using ne n22 by simp
  qed
  from shortest_found [OF this]
  obtain s k where sk: "shortest 767 x n 1 = (s, k)" "1 \<le> k"
    "s \<in> set (digits_cand x n k)" "digits_ok x n k s"
    by (cases "shortest 767 x n 1") auto
  have k0: "0 < k" using sk(2) by simp
  note sb = cand_bounds [OF B k0 sk(3)]
  define s' where "s' = (if s = 10 ^ k then s div 10 else s)"
  define n' where "n' = (if s = 10 ^ k then n + 1 else n)"
  have ts: "ToString_pos x = format_digits s' k n'"
    using sk(1) by (simp add: ToString_pos_def n_def [symmetric] s'_def n'_def)
  have n'22: "21 < n'" using n22 by (simp add: n'_def)
  obtain j where j: "k = Suc j" using k0 by (cases k) auto
  have s'b: "10 ^ (k - 1) \<le> s'" "s' < 10 ^ k"
    using sb by (auto simp: s'_def j)
  have val: "of_int s' * (10::rat) powi (n' - int k) = of_int s * 10 powi (n - int k)"
  proof (cases "s = 10 ^ k")
    case True
    have "(10::rat) powi (n + 1 - int k) = 10 powi (n - int k) * 10 powi 1"
      using ten_powi_split [of "n - int k" 1] by (simp add: algebra_simps)
    then show ?thesis using True by (simp add: s'_def n'_def j)
  next
    case False
    then show ?thesis by (simp add: s'_def n'_def)
  qed
  define ds where "ds = dec_digits (nat s')"
  have s'0: "0 \<le> s'" using s'b(1) by (rule order_trans [rotated]) simp
  have "length ds = k"
    unfolding ds_def
  proof (rule dec_digits_length [OF k0])
    show "10 ^ (k - 1) \<le> nat s'" using s'b(1) s'0 by (simp add: le_nat_iff)
    show "nat s' < 10 ^ k" using s'b(2) s'0 by (simp add: nat_less_iff)
  qed
  then have len: "length ds = k" .
  have ds_ne: "ds \<noteq> []" unfolding ds_def by (rule dec_digits_nonempty)
  have ds_all: "\<forall>c\<in>set ds. is_digit c" unfolding ds_def using dec_digits_all by auto
  have ds_val: "digits_val ds = nat s'" unfolding ds_def by (rule digits_val_dec_digits)
  have fd: "format_digits s' k n' =
      (if length ds = 1 then ds @ CHR ''e'' # CHR ''+'' # dec_digits (nat (n' - 1))
       else hd ds # CHR ''.'' # tl ds @ CHR ''e'' # CHR ''+'' # dec_digits (nat (n' - 1)))"
    unfolding format_digits_exp [OF n'22] Let_def ds_def [symmetric] len by (rule refl)
  have ex: "int (nat (n' - 1)) - int (length ds - 1) = n' - int k"
    using n'22 k0 by (simp add: len)
  have "parseFloat ((if neg then ''-'' else []) @ ToString_pos x)
      = fl (signed neg (of_nat (nat s') * 10 powi (n' - int k)))"
    unfolding ts fd parseFloat_exp_form [OF ds_ne ds_all] ds_val ex by (rule refl)
  also have "of_nat (nat s') * (10::rat) powi (n' - int k) = of_int s * 10 powi (n - int k)"
    using val s'0 by simp
  finally have pf: "parseFloat ((if neg then ''-'' else []) @ ToString_pos x)
      = fl (signed neg (of_int s * 10 powi (n - int k)))" .
  have ok: "fl (of_int s * 10 powi (n - int k)) = Fin x" using sk(4) by (simp add: digits_ok_def)
  show ?thesis
    unfolding pf using ok fl_minus_Fin [OF ok] by (simp add: signed_def)
qed

lemma parseFloat_toFixed_large:
  assumes "fl q = Fin q" "10 ^ 21 \<le> \<bar>q\<bar>"
  shows "parseFloat (toFixed (Fin q) f) = Fin q"
proof -
  have rep: "fl \<bar>q\<bar> = Fin \<bar>q\<bar>"
    using assms(1) fl_minus_Fin [OF assms(1)] by (simp add: abs_if)
  have "toFixed (Fin q) f = (if q < 0 then ''-'' else []) @ ToString_pos \<bar>q\<bar>"
    using assms(2) by (simp add: toFixed_def)
  then show ?thesis
    using ToString_pos_parse [OF rep assms(2), of "q < 0"] by (simp add: signed_def abs_if)
qed

subsection \<open>The error of one rounding\<close>

lemma ulp_half_bound:
  assumes "q \<noteq> 0"
  shows "2 powi (fexp q - 1) \<le> \<bar>q\<bar> / 2 ^ 53 + 1 / 2 ^ 1075"
proof (cases "- 1022 \<le> ilog 2 \<bar>q\<bar>")
  case True
  have fe: "fexp q - 1 = ilog 2 \<bar>q\<bar> + (- 53)" using True by (simp add: fexp_def)
  have n: "(2::rat) powi (- 53) = 1 / 2 ^ 53" by (simp add: power_int_minus_divide)
  have "(2::rat) powi (fexp q - 1) = 2 powi (ilog 2 \<bar>q\<bar>) * 2 powi (- 53)"
    unfolding fe by (rule powi_split)
  also have "\<dots> = 2 powi (ilog 2 \<bar>q\<bar>) / 2 ^ 53" unfolding n by simp
  also have "\<dots> \<le> \<bar>q\<bar> / 2 ^ 53"
    using ilog2_bounds(1) [OF assms] by (rule divide_right_mono) simp
  finally have "(2::rat) powi (fexp q - 1) \<le> \<bar>q\<bar> / 2 ^ 53" .
  moreover have "(0::rat) \<le> 1 / 2 ^ 1075" by simp
  ultimately show ?thesis by linarith
next
  case False
  then have "fexp q - 1 = - 1075" by (simp add: fexp_def)
  then have "(2::rat) powi (fexp q - 1) = 2 powi (- 1075)" by (simp only:)
  also have "\<dots> = 1 / 2 ^ 1075" by (simp add: power_int_minus_divide)
  finally have "(2::rat) powi (fexp q - 1) = 1 / 2 ^ 1075" .
  moreover have "(0::rat) \<le> \<bar>q\<bar> / 2 ^ 53" by simp
  ultimately show ?thesis by linarith
qed

lemma fl_close:
  assumes "\<bar>q\<bar> < 2 ^ 1023"
  shows "\<exists>v. fl q = Fin v \<and> \<bar>v - q\<bar> \<le> \<bar>q\<bar> / 2 ^ 53 + 1 / 2 ^ 1075"
proof (cases "q = 0")
  case True
  then show ?thesis by (simp add: fl_def)
next
  case False
  define v where "v = of_int (round_even (q / 2 powi fexp q)) * (2::rat) powi fexp q"
  have "\<bar>of_int (round_even (q / 2 powi fexp q)) - q / 2 powi fexp q\<bar> \<le> 1 / 2"
    by (rule round_even_err)
  then have "\<bar>of_int (round_even (q / 2 powi fexp q)) - q / 2 powi fexp q\<bar> * 2 powi fexp q
      \<le> 1 / 2 * 2 powi fexp q"
    by (rule mult_right_mono) simp
  moreover have "\<bar>of_int (round_even (q / 2 powi fexp q)) - q / 2 powi fexp q\<bar> * 2 powi fexp q
      = \<bar>v - q\<bar>"
  proof -
    have "v - q = (of_int (round_even (q / 2 powi fexp q)) - q / 2 powi fexp q) * 2 powi fexp q"
      unfolding v_def by (simp add: left_diff_distrib)
    then show ?thesis by (simp add: abs_mult)
  qed
  moreover have "1 / 2 * (2::rat) powi fexp q = 2 powi (fexp q - 1)"
    by (simp add: powi_diff)
  ultimately have "\<bar>v - q\<bar> \<le> 2 powi (fexp q - 1)" by simp
  then have err: "\<bar>v - q\<bar> \<le> \<bar>q\<bar> / 2 ^ 53 + 1 / 2 ^ 1075"
    using ulp_half_bound [OF False] by linarith
  have a: "\<bar>q\<bar> / 2 ^ 53 < 2 ^ 970" using assms by (simp add: pos_divide_less_eq)
  have b: "(1::rat) / 2 ^ 1075 < 1" by simp
  have c: "(2::rat) ^ 1023 + 2 ^ 970 + 1 \<le> 2 ^ 1024" by simp
  have "\<bar>v\<bar> \<le> \<bar>q\<bar> + \<bar>v - q\<bar>" by linarith
  then have "\<bar>v\<bar> < 2 ^ 1024" using err a b c assms by linarith
  then have "fl q = Fin v"
    using False by (simp add: fl_unfold v_def Let_def)
  then show ?thesis using err by blast
qed


lemma fl_close_dec:
  assumes "\<bar>q\<bar> \<le> 10 ^ 30"
  shows "\<exists>v. fl q = Fin v \<and> \<bar>v - q\<bar> \<le> \<bar>q\<bar> / 9000000000000000 + 1 / 10 ^ 30"
proof -
  have "(10::rat) ^ 30 < 2 ^ 1023" by simp
  then have "\<bar>q\<bar> < 2 ^ 1023" using assms by linarith
  then obtain v where v: "fl q = Fin v" "\<bar>v - q\<bar> \<le> \<bar>q\<bar> / 2 ^ 53 + 1 / 2 ^ 1075"
    using fl_close by blast
  have "\<bar>q\<bar> / 2 ^ 53 \<le> \<bar>q\<bar> / 9000000000000000"
    by (rule divide_left_mono) simp_all
  moreover have "(1::rat) / 2 ^ 1075 \<le> 1 / 10 ^ 30" by simp
  ultimately have "\<bar>v - q\<bar> \<le> \<bar>q\<bar> / 9000000000000000 + 1 / 10 ^ 30" using v(2) by linarith
  then show ?thesis using v(1) by blast
qed

section \<open>Rejected rates\<close>

lemma js_le_zero_iff: "js_le_zero r \<longleftrightarrow> r = NegInf \<or> (\<exists>q\<le>0. r = Fin q)"
  by (cases r) auto

text \<open>
  C2. A rate that is zero or negative (a finite Number \<open>q \<le> 0\<close>, or minus infinity) is
  rejected with \<open>InvalidRate\<close> carrying that rate, whatever the amount: by the constructor
  called with or without \<^verbatim>\<open>new\<close>, by \<^verbatim>\<open>fromFiat\<close>, by \<^verbatim>\<open>to\<close> and by \<^verbatim>\<open>atRate\<close>. The test is
  the first thing each of them does with a Number argument.
\<close>

theorem invalid_rate_rejected:
  assumes "rate = NegInf \<or> (\<exists>q\<le>0. rate = Fin q)"
  shows "Unit this_is_unit amt (Num rate) = Inl (InvalidRate rate)
       \<and> Unit_fromFiat amt rate = Inl (InvalidRate rate)
       \<and> Unit_to u (Num rate) = Inl (InvalidRate rate)
       \<and> Unit_atRate u rate = Inl (InvalidRate rate)"
proof -
  have "js_le_zero rate" using assms by (simp add: js_le_zero_iff)
  then show ?thesis
    by (simp add: Unit_def Unit_new_def Unit_fromFiat_def Unit_to_def Unit_atRate_def)
qed

theorem invalid_rate_rejected_witness:
  "Unit True (Fin 5) (Num (Fin 0)) = Inl (InvalidRate (Fin 0))
   \<and> Unit_fromFiat (Fin 5) (Fin 0) = Inl (InvalidRate (Fin 0))
   \<and> Unit_to \<lparr>u_value = Fin 7\<rparr> (Num (Fin 0)) = Inl (InvalidRate (Fin 0))
   \<and> Unit_atRate \<lparr>u_value = Fin 7\<rparr> (Fin 0) = Inl (InvalidRate (Fin 0))"
proof -
  have h: "Fin 0 = NegInf \<or> (\<exists>q\<le>0. Fin 0 = Fin q)" by simp
  show ?thesis by (rule invalid_rate_rejected [OF h])
qed

section \<open>Codes that are not units\<close>

lemma UNITS_toString: "UNITS ''toString'' = Inherited"
  by (simp add: UNITS_def object_prototype_names_def)

lemma toFixed_NaN: "toFixed NaN f = ''NaN''"
  by (simp add: toFixed_def)

lemma parseInt_NaN: "parseInt ''NaN'' = NaN"
  by (simp add: parseInt_def strip_sign_def is_digit_def digit_chars_def)

lemma parseFloat_NaN: "parseFloat ''NaN'' = NaN"
  by (simp add: parseFloat_def strip_sign_def frac_part_def is_digit_def digit_chars_def)

lemma js_mul_NaN: "js_mul a NaN = NaN"
  by (cases a) simp_all

lemma js_div_NaN: "js_div a NaN = NaN"
  by (cases a) simp_all

lemma inherited_code_value:
  assumes "UNITS k = Inherited"
  shows "Unit_new amt (Key k) = Inr \<lparr>u_value = NaN\<rparr>" and "Unit_to u (Key k) = Inr NaN"
  using assms
  by (simp_all add: Unit_new_def Unit_from_def Unit_to_def to_code_def js_mul_NaN js_div_NaN
      toFixed_NaN parseInt_NaN parseFloat_NaN)

lemma unknown_code_rejected:
  assumes "UNITS k = Undefined"
  shows "Unit_new amt (Key k) = Inl (UnknownCode k)" and "Unit_to u (Key k) = Inl (UnknownCode k)"
  using assms by (simp_all add: Unit_new_def Unit_from_def Unit_to_def to_code_def)

text \<open>
  C3. The code \<^verbatim>\<open>'toString'\<close> is none of the four units, yet \<^verbatim>\<open>UNITS['toString']\<close> is the
  function inherited from \<^verbatim>\<open>Object.prototype\<close>, so the test \<^verbatim>\<open>!UNITS[code]\<close> lets it pass:
  the constructor returns an instance whose value is \<open>NaN\<close>, and \<^verbatim>\<open>to('toString')\<close> returns
  \<open>NaN\<close>. Neither raises \<open>UnknownCode\<close>.
\<close>

theorem inherited_code_accepted:
  "Unit True (Fin 1) (Key ''toString'') = Inr \<lparr>u_value = NaN\<rparr>
   \<and> Unit_to \<lparr>u_value = Fin 100000000\<rparr> (Key ''toString'') = Inr NaN"
  by (simp add: Unit_def Unit_new_def Unit_from_def Unit_to_def to_code_def UNITS_toString
      toFixed_NaN parseInt_NaN parseFloat_NaN)

section \<open>The plain object\<close>

text \<open>
  C5. For every instance, however it was made, \<^verbatim>\<open>toObject\<close> (and \<^verbatim>\<open>toJSON\<close>, the same
  function) returns the object whose \<open>amount\<close> is the result of \<^verbatim>\<open>to('BLK')\<close>, which always
  succeeds, and whose \<open>code\<close> is \<^verbatim>\<open>'BLK'\<close>.
\<close>

theorem toObject_primary:
  "Unit_to u (Key Unit_BLK) = Inr (parseFloat (toFixed (js_div (u_value u) (Fin (10 ^ 8))) 8))
   \<and> Unit_toBLK u = Unit_to u (Key Unit_BLK)
   \<and> Unit_toObject u = Inr \<lparr>amount = projr (Unit_to u (Key Unit_BLK)), code = ''BLK''\<rparr>
   \<and> Unit_toJSON u = Unit_toObject u"
  by (simp add: Unit_to_def to_code_def accessor_def Unit_toObject_def Unit_toJSON_def
      Unit_toBLK_def Unit_BLK_def UNITS_def)

text \<open>
  C6, as the code has it. \<^verbatim>\<open>fromObject\<close> checks that its argument is an object and nothing
  else: a value that is no object is rejected with the argument error before the
  constructor runs; an object is handed to the constructor property by property, an
  absent property reading as \<^verbatim>\<open>undefined\<close>.
\<close>

theorem fromObject_checks_object_only:
  "Unit_fromObject NonObject = Inl (InvalidArgument ''Argument is expected to be an object'')
   \<and> Unit_fromObject (Object a c) = Unit_new (data_amount (Object a c)) (data_code (Object a c))"
  by (simp add: Unit_fromObject_def checkArgument_def)

text \<open>
  C6 fails as stated: an object without the \<open>amount\<close> property is accepted, and makes an
  instance whose value is \<open>NaN\<close>.
\<close>

theorem fromObject_missing_amount:
  "Unit_fromObject (Object None (Some (Key ''BLK''))) = Inr \<lparr>u_value = NaN\<rparr>"
  by (simp add: Unit_fromObject_def checkArgument_def Unit_new_def Unit_from_def UNITS_def
      toFixed_NaN parseInt_NaN)

lemma fromObject_missing_code:
  "Unit_fromObject (Object (Some (Fin 1)) None) = Inl (UnknownCode ''undefined'')"
  by (simp add: Unit_fromObject_def checkArgument_def Unit_new_def Unit_from_def UNITS_def
      object_prototype_names_def)

section \<open>Round trips across denominations\<close>

text \<open>
  C4. \<^verbatim>\<open>fromBLK(1)\<close> makes the instance with value 100000000, whose \<^verbatim>\<open>toRatoshis()\<close> is
  100000000; \<^verbatim>\<open>fromRatoshis(100000000)\<close> and \<^verbatim>\<open>fromMicros(1000000)\<close> make the same
  instance, whose \<^verbatim>\<open>toBLK()\<close> is exactly 1.
\<close>

theorem denomination_round_trips:
  "Unit_fromBLK (Fin 1) = Inr \<lparr>u_value = Fin 100000000\<rparr>
   \<and> Unit_toRatoshis \<lparr>u_value = Fin 100000000\<rparr> = Inr (Fin 100000000)
   \<and> Unit_fromRatoshis (Fin 100000000) = Inr \<lparr>u_value = Fin 100000000\<rparr>
   \<and> Unit_toBLK \<lparr>u_value = Fin 100000000\<rparr> = Inr (Fin 1)
   \<and> Unit_fromMicros (Fin 1000000) = Inr \<lparr>u_value = Fin 100000000\<rparr>"
  by (simp add: unit_defs eval_simps)

section \<open>Conversion at a rate\<close>

lemma is_double_fl: "is_double (fl q)"
  by (cases "fl q") (auto simp: is_double_def dest: fl_idem)

lemma is_double_js_mul: "is_double (js_mul a b)"
proof (cases "\<exists>x y. a = Fin x \<and> b = Fin y")
  case True
  then show ?thesis by (auto simp: is_double_fl)
next
  case False
  then have "js_mul a b = NaN \<or> js_mul a b = PosInf \<or> js_mul a b = NegInf"
    by (cases a; cases b; simp add: js_inf_def)
  then show ?thesis by (auto simp: is_double_def)
qed

lemma is_double_js_div: "is_double (js_div a b)"
proof (cases "\<exists>x y. a = Fin x \<and> b = Fin y")
  case True
  then obtain x y where xy: "a = Fin x" "b = Fin y" by blast
  show ?thesis
  proof (cases "y = 0")
    case True
    then show ?thesis by (simp add: xy is_double_def js_inf_def)
  next
    case False
    then show ?thesis by (simp add: xy is_double_fl)
  qed
next
  case False
  then have "js_div a b = NaN \<or> js_div a b = PosInf \<or> js_div a b = NegInf \<or> js_div a b = Fin 0"
    by (cases a; cases b; simp add: js_inf_def)
  then show ?thesis by (auto simp: is_double_def fl_0)
qed

lemma toFixed_Inf: "toFixed PosInf f = ''Infinity''" "toFixed NegInf f = ''-Infinity''"
  by (simp_all add: toFixed_def)

lemma parseFloat_Inf: "parseFloat ''Infinity'' = PosInf" "parseFloat ''-Infinity'' = NegInf"
  by (simp_all add: parseFloat_def strip_sign_def)

text \<open>
  Printing a Number with \<open>toFixed\<close> and reading it back with \<open>parseFloat\<close> rounds it to
  the given number of decimal places.
\<close>

lemma parseFloat_toFixed_number:
  assumes "is_double y"
  shows "parseFloat (toFixed y f) = js_round_places f y"
proof (cases y)
  case (Fin q)
  then have rep: "fl q = Fin q" using assms by (simp add: is_double_def)
  show ?thesis
  proof (cases "\<bar>q\<bar> < 10 ^ 21")
    case True
    then show ?thesis by (simp add: Fin parseFloat_toFixed js_round_places_def)
  next
    case False
    then have big: "10 ^ 21 \<le> \<bar>q\<bar>" by simp
    have "(2::rat) ^ 52 \<le> 10 ^ 21" by simp
    then have "2 ^ 52 \<le> \<bar>q\<bar>" using big by simp
    then obtain n where "q = of_int n" using fl_large_is_int [OF rep] by blast
    then have "round_places f q = q" by (simp only: round_places_of_int)
    then show ?thesis
      using parseFloat_toFixed_large [OF rep big] rep by (simp add: Fin js_round_places_def)
  qed
qed (simp_all add: toFixed_NaN parseFloat_NaN toFixed_Inf parseFloat_Inf js_round_places_def)

lemma parseInt_cases:
  "parseInt s = NaN \<or> parseInt s = PosInf \<or> parseInt s = NegInf \<or> (\<exists>k. parseInt s = Fin (of_int k))"
proof -
  obtain neg r where sr: "strip_sign s = (neg, r)" by (cases "strip_sign s")
  show ?thesis
  proof (cases "takeWhile is_digit r = []")
    case True
    then show ?thesis by (simp add: parseInt_def sr)
  next
    case False
    define N where "N = digits_val (takeWhile is_digit r)"
    have "signed neg (of_nat N) = rat_of_int (if neg then - int N else int N)"
      by (simp add: signed_def)
    then have p: "parseInt s = fl (rat_of_int (if neg then - int N else int N))"
      using False by (simp add: parseInt_def sr N_def)
    show ?thesis
    proof (cases "parseInt s")
      case (Fin x)
      then show ?thesis using fl_int_is_int [of "if neg then - int N else int N" x] p by auto
    qed simp_all
  qed
qed

lemma div_scale_round_trip:
  assumes "v = NaN \<or> v = PosInf \<or> v = NegInf \<or> (\<exists>k. v = Fin (of_int k))"
  shows "parseFloat (toFixed (js_div v (Fin 100000000)) 8) = js_div v (Fin 100000000)"
proof -
  have "js_round_places 8 (js_div v (Fin 100000000)) = js_div v (Fin 100000000)"
  proof (cases "js_div v (Fin 100000000)")
    case (Fin d)
    then obtain k where k: "v = Fin (of_int k)"
      using assms by (auto simp: js_inf_def split: if_splits)
    then have "fl (of_int k / 10 ^ 8) = Fin d" using Fin by simp
    then have "fl (round_places 8 d) = Fin d" by (rule blk_round_trip)
    then show ?thesis by (simp add: Fin js_round_places_def)
  qed (simp_all add: js_round_places_def)
  then show ?thesis
    using parseFloat_toFixed_number [OF is_double_js_div, of v "Fin 100000000" 8] by simp
qed

lemma constructed_value:
  assumes "Unit this amt cd = Inr u"
  shows "\<exists>s. u_value u = parseInt s"
proof (cases cd)
  case (Num rate)
  then show ?thesis
    using assms by (auto simp: Unit_def Unit_new_def Unit_from_def map_sum_def split: if_splits sum.splits)
next
  case (Key k)
  then show ?thesis
    using assms by (auto simp: Unit_def Unit_new_def Unit_from_def map_sum_def split: if_splits sum.splits)
qed

lemma accessor_BLK:
  assumes "Unit this amt cd = Inr u"
  shows "accessor u ''BLK'' = Inr (js_div (u_value u) (Fin 100000000))"
proof -
  obtain s where s: "u_value u = parseInt s" using constructed_value [OF assms] by blast
  have "parseFloat (toFixed (js_div (u_value u) (Fin 100000000)) 8) = js_div (u_value u) (Fin 100000000)"
    unfolding s by (rule div_scale_round_trip [OF parseInt_cases])
  then show ?thesis by (simp add: accessor_def to_code_def UNITS_def)
qed

lemma to_rate_value:
  assumes "Unit this amt cd = Inr u" "0 < r"
  shows "Unit_to u (Num (Fin r))
           = Inr (js_round_places 2 (js_mul (js_div (u_value u) (Fin 100000000)) (Fin r)))"
  using assms(2)
  by (simp add: Unit_to_def accessor_BLK [OF assms(1)]
      parseFloat_toFixed_number [OF is_double_js_mul])

lemma fl_round:
  assumes "2 powi e \<le> \<bar>q\<bar>" "\<bar>q\<bar> < 2 powi (e + 1)" "- 1022 \<le> e"
    and "\<bar>q / 2 powi (e - 52) - of_int n\<bar> < 1 / 2"
    and "\<bar>of_int n * (2::rat) powi (e - 52)\<bar> < 2 ^ 1024"
  shows "fl q = Fin (of_int n * 2 powi (e - 52))"
proof -
  have "0 < \<bar>q\<bar>" using assms(1) two_powi_pos [of e] by linarith
  then have q: "q \<noteq> 0" by auto
  have "ilog 2 \<bar>q\<bar> = e" by (rule ilog2_unique [OF assms(1,2)])
  then have f: "fexp q = e - 52" using assms(3) by (simp add: fexp_def)
  have r: "round_even (q / 2 powi (e - 52)) = n" by (rule round_even_near [OF assms(4)])
  show ?thesis using assms(5) by (simp add: fl_unfold [OF q] f r Let_def)
qed

lemma two_powi_m52: "(2::rat) powi (- 52) = 1 / 4503599627370496"
  by (simp add: power_int_minus_divide)

lemma two_powi_m44: "(2::rat) powi (- 44) = 1 / 17592186044416"
  by (simp add: power_int_minus_divide)

lemma fl_1005: "fl (201 / 200) = Fin (1131529406376837 / 1125899906842624)"
  using fl_round [of 0 "201 / 200" 4526117625507348] by (simp add: two_powi_m52)

lemma fl_101: "fl (101 / 100) = Fin (4548635623644201 / 4503599627370496)"
  using fl_round [of 0 "101 / 100" 4548635623644201] by (simp add: two_powi_m52)

lemma fl_123456789: "fl (123456789 / 100000000) = Fin (5559999489367579 / 4503599627370496)"
  using fl_round [of 0 "123456789 / 100000000" 5559999489367579] by (simp add: two_powi_m52)

lemma fl_432:
  "fl (972999910639326325 / 2251799813685248) = Fin (7601561801869737 / 17592186044416)"
  using fl_round [of 8 "972999910639326325 / 2251799813685248" 7601561801869737]
  by (simp add: two_powi_m44)

lemma round_1005: "round_places 2 (1131529406376837 / 1125899906842624) = 1"
  using rha_near [of "1131529406376837 / 1125899906842624 * 100" 100]
  by (simp add: round_places_def)

lemma round_432: "round_places 2 (7601561801869737 / 17592186044416) = 4321 / 10"
  using rha_near [of "7601561801869737 / 17592186044416 * 100" 43210]
  by (simp add: round_places_def)

text \<open>
  C7 fails as stated. The instance made from 100500000 ratoshis is 1.005 BLK, and at the
  rate 1 the claim gives \<open>round(100500000 / 100000000 * 1, 2)\<close>, which is 1.01. The code
  returns 1: the quotient it computes is the Number nearest to 1.005, which lies below
  1.005, and rounding that to 2 decimal places gives 1.00.
\<close>

theorem to_rate_below_the_tie:
  "Unit True (Fin 100500000) (Key ''ratoshis'') = Inr \<lparr>u_value = Fin 100500000\<rparr>
   \<and> Unit_to \<lparr>u_value = Fin 100500000\<rparr> (Num (Fin 1)) = Inr (Fin 1)
   \<and> Unit_atRate \<lparr>u_value = Fin 100500000\<rparr> (Fin 1) = Inr (Fin 1)
   \<and> round_places 2 (100500000 / 100000000 * 1) = 101 / 100
   \<and> js_round_places 2 (Fin (100500000 / 100000000 * 1)) \<noteq> Fin 1"
proof -
  have c: "Unit True (Fin 100500000) (Key ''ratoshis'') = Inr \<lparr>u_value = Fin 100500000\<rparr>"
    by (simp add: unit_defs eval_simps)
  have r: "(0::rat) < 1" by simp
  have "js_round_places 2 (js_mul (js_div (Fin 100500000) (Fin 100000000)) (Fin 1)) = Fin 1"
    using fl_idem [OF fl_1005] by (simp add: js_round_places_def fl_1005 round_1005 fl_1)
  then have t: "Unit_to \<lparr>u_value = Fin 100500000\<rparr> (Num (Fin 1)) = Inr (Fin 1)"
    using to_rate_value [OF c r] by simp
  have "round_half_away_from_zero (201 / 2) = 101"
    by (simp add: round_half_away_from_zero_def)
  then have e: "round_places 2 (201 / 200) = 101 / 100"
    by (simp add: round_places_def)
  have n: "js_round_places 2 (Fin (201 / 200)) \<noteq> Fin 1"
    unfolding js_round_places_def jsnum.case e fl_101 by simp
  have a: "Unit_atRate \<lparr>u_value = Fin 100500000\<rparr> (Fin 1) = Inr (Fin 1)"
    using t by (simp add: Unit_atRate_def)
  have s: "(100500000::rat) / 100000000 * 1 = 201 / 200" by simp
  show ?thesis unfolding s using c t a e n by (intro conjI)
qed

text \<open>
  C7, as the code has it. For every instance the constructor returns and every positive
  rate \<open>r\<close>, \<^verbatim>\<open>to(r)\<close> returns the product of \<open>value / 100000000\<close> and \<open>r\<close> rounded to
  2 decimal places, and \<^verbatim>\<open>atRate(r)\<close> returns the same, where the quotient and the product
  are those of Numbers (\<open>js_div\<close>, \<open>js_mul\<close>: each is rounded to the nearest Number); the
  rounding to 2 places is half away from zero on the Number that the product is, and the
  result is the Number nearest to the rounded decimal. (The accessor \<^verbatim>\<open>this.BLK\<close> that the
  code multiplies by the rate is the quotient: printing it with 8 decimals and reading it
  back changes nothing.)
\<close>

theorem to_rate_rounds:
  assumes "Unit this amt cd = Inr u" "0 < r"
  shows "Unit_to u (Num (Fin r))
           = Inr (js_round_places 2 (js_mul (js_div (u_value u) (Fin 100000000)) (Fin r)))
       \<and> Unit_atRate u (Fin r) = Unit_to u (Num (Fin r))"
  using to_rate_value [OF assms] by (simp add: Unit_atRate_def)

text \<open>
  An instance of 1.23456789 BLK at the rate 350: the product of the Numbers is near
  432.0987615, and \<^verbatim>\<open>to(350)\<close> returns the Number 432.1.
\<close>

theorem to_rate_rounds_witness:
  "Unit True (Fin 123456789) (Key ''ratoshis'') = Inr \<lparr>u_value = Fin 123456789\<rparr> \<and> (0::rat) < 350
   \<and> Unit_to \<lparr>u_value = Fin 123456789\<rparr> (Num (Fin 350)) = Inr (fl (4321 / 10))
   \<and> Unit_atRate \<lparr>u_value = Fin 123456789\<rparr> (Fin 350)
       = Unit_to \<lparr>u_value = Fin 123456789\<rparr> (Num (Fin 350))"
proof -
  have c: "Unit True (Fin 123456789) (Key ''ratoshis'') = Inr \<lparr>u_value = Fin 123456789\<rparr>"
    by (simp add: unit_defs eval_simps)
  have r: "(0::rat) < 350" by simp
  have "js_round_places 2 (js_mul (js_div (Fin 123456789) (Fin 100000000)) (Fin 350))
      = fl (4321 / 10)"
    by (simp add: js_round_places_def fl_123456789 fl_432 round_432)
  then show ?thesis using to_rate_rounds [OF c r] c by simp
qed

section \<open>The fiat round trip\<close>

lemma fl_pow2_m30: "fl (1 / 1073741824) = Fin (1 / 1073741824)"
  by (rule fl_exact [where m = 1 and p = "- 30"]) simp_all

lemma fl_frac: "fl (390625 / 4194304) = Fin (390625 / 4194304)"
  by (rule fl_exact [where m = 390625 and p = "- 22"]) simp_all

text \<open>
  C8 fails as stated: at the rate \<open>2 ^ 30\<close> the fiat amount 1 is \<open>2 powi - 30\<close> BLK, less
  than half a ratoshi, so the instance holds 0 and converts back to 0, not to a value
  near 1.
\<close>

theorem fiat_round_trip_loses_amount:
  "fiat_round_trip (Fin 1) (Fin 1073741824) = Inr (Fin 0)"
proof -
  have a: "Unit_fromFiat (Fin 1) (Fin 1073741824) = Inr \<lparr>u_value = Fin 0\<rparr>"
    by (simp add: unit_defs eval_simps fl_pow2_m30 fl_frac rha_small)
  have b: "Unit_atRate \<lparr>u_value = Fin 0\<rparr> (Fin 1073741824) = Inr (Fin 0)"
    by (simp add: unit_defs eval_simps)
  show ?thesis by (simp add: fiat_round_trip_def a b)
qed

text \<open>
  The instance made from the fiat amount \<open>a\<close> at the rate \<open>r\<close> holds a whole number of
  ratoshis; converted back at the same rate it gives the fiat value \<open>y\<close> of that stored
  amount (the product of \<open>value / 100000000\<close> and \<open>r\<close>), rounded to 2 decimal places, which
  is within 0.005 of \<open>y\<close>.
\<close>

lemma fiat_round_trip_stored_value:
  assumes "0 < r" "Unit_fromFiat a (Fin r) = Inr u"
    and "js_mul (js_div (u_value u) (Fin 100000000)) (Fin r) = Fin y"
  shows "fiat_round_trip a (Fin r) = Inr (fl (round_places 2 y))
       \<and> \<bar>round_places 2 y - y\<bar> \<le> 1 / 200"
proof -
  have c: "Unit True a (Num (Fin r)) = Inr u"
    using assms(2) by (simp add: Unit_def Unit_fromFiat_def)
  have "\<bar>round_places 2 y - y\<bar> \<le> 1 / 200" using round_places_err [of 2 y] by simp
  then show ?thesis
    using to_rate_value [OF c assms(1)] assms(3)
    by (simp add: fiat_round_trip_def assms(2) Unit_atRate_def js_round_places_def)
qed

text \<open>
  The chain of roundings from the fiat amount \<open>a\<close> to the result: the quotient \<open>a / r\<close>, the
  product with \<open>10 ^ 8\<close>, the integer magnitude, the quotient by \<open>10 ^ 8\<close>, the product
  with \<open>r\<close> and the two decimals. Each binary64 rounding costs a relative \<open>2 powi - 53\<close>,
  the integer costs half a ratoshi, worth \<open>r / (2 * 10 ^ 8)\<close>, and the decimals cost 0.005.
\<close>

lemma abs_div_pos: "0 < c \<Longrightarrow> \<bar>a / c\<bar> = \<bar>a\<bar> / (c::rat)"
  by (simp add: abs_divide)

lemma fiat_chain:
  assumes r: "0 < r" "r \<le> 10 ^ 9" and a: "\<bar>a\<bar> \<le> 10 ^ 9" "\<bar>a\<bar> \<le> 10 ^ 12 * r"
  shows "\<exists>q1 x d y res.
           fl (a / r) = Fin q1 \<and> fl (q1 * 10 ^ 8) = Fin x \<and> \<bar>x\<bar> < 10 ^ 21
         \<and> fl (of_int (round_half_away_from_zero x) / 10 ^ 8) = Fin d
         \<and> fl (d * r) = Fin y \<and> fl (round_places 2 y) = Fin res
         \<and> \<bar>res - a\<bar> \<le> 1 / 200 + r / (2 * 10 ^ 8) + 1 / 10 ^ 6"
proof -
  define U :: rat where "U = 1 / 9000000000000000"
  define H :: rat where "H = 1 / 10 ^ 30"
  define q where "q = a / r"
  have rq: "r * \<bar>q\<bar> = \<bar>a\<bar>" using r(1) by (simp add: q_def abs_divide)
  have qb: "\<bar>q\<bar> \<le> 10 ^ 12"
    using a(2) r(1) by (simp add: q_def abs_divide pos_divide_le_eq)
  have rH: "r * H \<le> 10 ^ 9 * H" using r(2) by (simp add: H_def)
  have r5: "r / (2 * 10 ^ 8) \<le> 5" using r(2) by simp
  \<comment> \<open>the quotient\<close>
  obtain q1 where q1: "fl q = Fin q1" and e1: "\<bar>q1 - q\<bar> \<le> \<bar>q\<bar> * U + H"
    using fl_close_dec [of q] qb by (auto simp: U_def H_def)
  have m1: "\<bar>q1\<bar> \<le> 10 ^ 12 + 1" using e1 qb by (simp add: U_def H_def)
  have "r * \<bar>q1 - q\<bar> \<le> r * (\<bar>q\<bar> * U + H)" using e1 r(1) by (simp add: mult_left_mono)
  also have "\<dots> = \<bar>a\<bar> * U + r * H" using rq by (simp add: algebra_simps)
  finally have s1: "r * \<bar>q1 - q\<bar> \<le> \<bar>a\<bar> * U + r * H" .
  have "r * \<bar>q1\<bar> \<le> r * \<bar>q\<bar> + r * \<bar>q1 - q\<bar>"
  proof -
    have "\<bar>q1\<bar> \<le> \<bar>q\<bar> + \<bar>q1 - q\<bar>" by linarith
    then have "r * \<bar>q1\<bar> \<le> r * (\<bar>q\<bar> + \<bar>q1 - q\<bar>)" using r(1) by (simp add: mult_left_mono)
    then show ?thesis by (simp add: algebra_simps)
  qed
  then have rq1: "r * \<bar>q1\<bar> \<le> 10 ^ 9 + 1"
    using s1 rq a(1) rH by (simp add: U_def H_def)
  \<comment> \<open>the scaled amount\<close>
  have "\<bar>q1 * 10 ^ 8\<bar> \<le> 10 ^ 30" using m1 by (simp add: abs_mult)
  then obtain x where x: "fl (q1 * 10 ^ 8) = Fin x"
    and e2: "\<bar>x - q1 * 10 ^ 8\<bar> \<le> \<bar>q1 * 10 ^ 8\<bar> * U + H"
    using fl_close_dec [of "q1 * 10 ^ 8"] by (auto simp: U_def H_def)
  have m2: "\<bar>x\<bar> \<le> 2 * 10 ^ 20" using e2 m1 by (simp add: abs_mult U_def H_def)
  have "\<bar>x / 10 ^ 8 - q1\<bar> = \<bar>x - q1 * 10 ^ 8\<bar> / 10 ^ 8"
  proof -
    have "x / 10 ^ 8 - q1 = (x - q1 * 10 ^ 8) / 10 ^ 8" by (simp add: diff_divide_distrib)
    then have "\<bar>x / 10 ^ 8 - q1\<bar> = \<bar>(x - q1 * 10 ^ 8) / 10 ^ 8\<bar>" by (simp only:)
    also have "\<dots> = \<bar>x - q1 * 10 ^ 8\<bar> / 10 ^ 8" by (rule abs_div_pos) simp
    finally show ?thesis .
  qed
  also have "\<dots> \<le> (\<bar>q1 * 10 ^ 8\<bar> * U + H) / 10 ^ 8" using e2 by (rule divide_right_mono) simp
  also have "\<dots> \<le> \<bar>q1\<bar> * U + H" by (simp add: abs_mult add_divide_distrib H_def)
  finally have e2': "\<bar>x / 10 ^ 8 - q1\<bar> \<le> \<bar>q1\<bar> * U + H" .
  have "r * \<bar>x / 10 ^ 8 - q1\<bar> \<le> r * (\<bar>q1\<bar> * U + H)" using e2' r(1) by (simp add: mult_left_mono)
  also have "\<dots> = (r * \<bar>q1\<bar>) * U + r * H" by (simp add: algebra_simps)
  also have "\<dots> \<le> (10 ^ 9 + 1) * U + 10 ^ 9 * H"
  proof -
    have "(r * \<bar>q1\<bar>) * U \<le> (10 ^ 9 + 1) * U"
      using rq1 by (intro mult_right_mono) (simp_all add: U_def)
    then show ?thesis using rH by linarith
  qed
  finally have s2: "r * \<bar>x / 10 ^ 8 - q1\<bar> \<le> (10 ^ 9 + 1) * U + 10 ^ 9 * H" .
  \<comment> \<open>the magnitude\<close>
  define M where "M = round_half_away_from_zero x"
  have e3: "\<bar>rat_of_int M - x\<bar> \<le> 1 / 2" unfolding M_def by (rule rha_err)
  have "\<bar>rat_of_int M / 10 ^ 8 - x / 10 ^ 8\<bar> = \<bar>rat_of_int M - x\<bar> / 10 ^ 8"
  proof -
    have "rat_of_int M / 10 ^ 8 - x / 10 ^ 8 = (rat_of_int M - x) / 10 ^ 8"
      by (simp add: diff_divide_distrib)
    then have "\<bar>rat_of_int M / 10 ^ 8 - x / 10 ^ 8\<bar> = \<bar>(rat_of_int M - x) / 10 ^ 8\<bar>"
      by (simp only:)
    also have "\<dots> = \<bar>rat_of_int M - x\<bar> / 10 ^ 8" by (rule abs_div_pos) simp
    finally show ?thesis .
  qed
  also have "\<dots> \<le> (1 / 2) / 10 ^ 8" using e3 by (rule divide_right_mono) simp
  finally have e3': "\<bar>rat_of_int M / 10 ^ 8 - x / 10 ^ 8\<bar> \<le> 1 / (2 * 10 ^ 8)" by simp
  have "r * \<bar>rat_of_int M / 10 ^ 8 - x / 10 ^ 8\<bar> \<le> r * (1 / (2 * 10 ^ 8))"
    using e3' r(1) by (simp add: mult_left_mono)
  then have s3: "r * \<bar>rat_of_int M / 10 ^ 8 - x / 10 ^ 8\<bar> \<le> r / (2 * 10 ^ 8)" by simp
  have m3: "\<bar>rat_of_int M / 10 ^ 8\<bar> \<le> 10 ^ 30"
  proof -
    have "\<bar>rat_of_int M\<bar> \<le> \<bar>x\<bar> + 1 / 2" using e3 by linarith
    then have "\<bar>rat_of_int M\<bar> \<le> 10 ^ 38" using m2 by simp
    then have "\<bar>rat_of_int M\<bar> / 10 ^ 8 \<le> 10 ^ 38 / 10 ^ 8" by (rule divide_right_mono) simp
    then show ?thesis by (simp add: abs_divide)
  qed
  have rM: "r * \<bar>rat_of_int M / 10 ^ 8\<bar> \<le> 10 ^ 9 + 7"
  proof -
    have "\<bar>rat_of_int M / 10 ^ 8\<bar>
        \<le> \<bar>q1\<bar> + \<bar>x / 10 ^ 8 - q1\<bar> + \<bar>rat_of_int M / 10 ^ 8 - x / 10 ^ 8\<bar>" by linarith
    then have "r * \<bar>rat_of_int M / 10 ^ 8\<bar>
        \<le> r * (\<bar>q1\<bar> + \<bar>x / 10 ^ 8 - q1\<bar> + \<bar>rat_of_int M / 10 ^ 8 - x / 10 ^ 8\<bar>)"
      using r(1) by (simp add: mult_left_mono)
    also have "\<dots> = r * \<bar>q1\<bar> + r * \<bar>x / 10 ^ 8 - q1\<bar> + r * \<bar>rat_of_int M / 10 ^ 8 - x / 10 ^ 8\<bar>"
      by (simp add: algebra_simps)
    finally show ?thesis using rq1 s2 s3 r5 by (simp add: U_def H_def)
  qed
  \<comment> \<open>back to BLK\<close>
  obtain d where d: "fl (rat_of_int M / 10 ^ 8) = Fin d"
    and e4: "\<bar>d - rat_of_int M / 10 ^ 8\<bar> \<le> \<bar>rat_of_int M / 10 ^ 8\<bar> * U + H"
    using fl_close_dec [OF m3] by (auto simp: U_def H_def)
  have "r * \<bar>d - rat_of_int M / 10 ^ 8\<bar> \<le> r * (\<bar>rat_of_int M / 10 ^ 8\<bar> * U + H)"
    using e4 r(1) by (simp add: mult_left_mono)
  also have "\<dots> = (r * \<bar>rat_of_int M / 10 ^ 8\<bar>) * U + r * H" by (simp add: algebra_simps)
  also have "\<dots> \<le> (10 ^ 9 + 7) * U + 10 ^ 9 * H"
  proof -
    have "(r * \<bar>rat_of_int M / 10 ^ 8\<bar>) * U \<le> (10 ^ 9 + 7) * U"
      using rM by (intro mult_right_mono) (simp_all add: U_def)
    then show ?thesis using rH by linarith
  qed
  finally have s4: "r * \<bar>d - rat_of_int M / 10 ^ 8\<bar> \<le> (10 ^ 9 + 7) * U + 10 ^ 9 * H" .
  have rd: "r * \<bar>d\<bar> \<le> 10 ^ 9 + 8"
  proof -
    have "\<bar>d\<bar> \<le> \<bar>rat_of_int M / 10 ^ 8\<bar> + \<bar>d - rat_of_int M / 10 ^ 8\<bar>" by linarith
    then have "r * \<bar>d\<bar> \<le> r * (\<bar>rat_of_int M / 10 ^ 8\<bar> + \<bar>d - rat_of_int M / 10 ^ 8\<bar>)"
      using r(1) by (simp add: mult_left_mono)
    also have "\<dots> = r * \<bar>rat_of_int M / 10 ^ 8\<bar> + r * \<bar>d - rat_of_int M / 10 ^ 8\<bar>"
      by (simp add: algebra_simps)
    finally show ?thesis using rM s4 by (simp add: U_def H_def)
  qed
  \<comment> \<open>the fiat value\<close>
  have dr: "\<bar>d * r\<bar> = r * \<bar>d\<bar>" using r(1) by (simp add: abs_mult)
  have "\<bar>d * r\<bar> \<le> 10 ^ 30" unfolding dr using rd by simp
  then obtain y where y: "fl (d * r) = Fin y" and e5: "\<bar>y - d * r\<bar> \<le> \<bar>d * r\<bar> * U + H"
    using fl_close_dec [of "d * r"] by (auto simp: U_def H_def)
  have s5: "\<bar>y - d * r\<bar> \<le> (10 ^ 9 + 8) * U + H"
  proof -
    have "\<bar>d * r\<bar> * U \<le> (10 ^ 9 + 8) * U"
      unfolding dr using rd by (intro mult_right_mono) (simp_all add: U_def)
    then show ?thesis using e5 by linarith
  qed
  have my: "\<bar>y\<bar> \<le> 10 ^ 9 + 9"
  proof -
    have "\<bar>y\<bar> \<le> \<bar>d * r\<bar> + \<bar>y - d * r\<bar>" by linarith
    then show ?thesis using s5 rd unfolding dr by (simp add: U_def H_def)
  qed
  \<comment> \<open>two decimals\<close>
  define rp where "rp = round_places 2 y"
  have e6: "\<bar>rp - y\<bar> \<le> 1 / 200" using round_places_err [of 2 y] by (simp add: rp_def)
  have mrp: "\<bar>rp\<bar> \<le> 10 ^ 9 + 10" using e6 my by linarith
  then have "\<bar>rp\<bar> \<le> 10 ^ 30" by simp
  then obtain res where res: "fl rp = Fin res" and e7: "\<bar>res - rp\<bar> \<le> \<bar>rp\<bar> * U + H"
    using fl_close_dec [of rp] by (auto simp: U_def H_def)
  have s7: "\<bar>res - rp\<bar> \<le> (10 ^ 9 + 10) * U + H"
  proof -
    have "\<bar>rp\<bar> * U \<le> (10 ^ 9 + 10) * U"
      using mrp by (intro mult_right_mono) (simp_all add: U_def)
    then show ?thesis using e7 by linarith
  qed
  \<comment> \<open>the sum\<close>
  have ar: "a = r * q" using r(1) by (simp add: q_def)
  have "res - a = (res - rp) + (rp - y) + (y - d * r) + r * (d - rat_of_int M / 10 ^ 8)
      + r * (rat_of_int M / 10 ^ 8 - x / 10 ^ 8) + r * (x / 10 ^ 8 - q1) + r * (q1 - q)"
    unfolding ar by (simp add: algebra_simps)
  then have "\<bar>res - a\<bar> \<le> \<bar>res - rp\<bar> + \<bar>rp - y\<bar> + \<bar>y - d * r\<bar> + \<bar>r * (d - rat_of_int M / 10 ^ 8)\<bar>
      + \<bar>r * (rat_of_int M / 10 ^ 8 - x / 10 ^ 8)\<bar> + \<bar>r * (x / 10 ^ 8 - q1)\<bar> + \<bar>r * (q1 - q)\<bar>"
    by linarith
  also have "\<dots> = \<bar>res - rp\<bar> + \<bar>rp - y\<bar> + \<bar>y - d * r\<bar> + r * \<bar>d - rat_of_int M / 10 ^ 8\<bar>
      + r * \<bar>rat_of_int M / 10 ^ 8 - x / 10 ^ 8\<bar> + r * \<bar>x / 10 ^ 8 - q1\<bar> + r * \<bar>q1 - q\<bar>"
    using r(1) by (simp add: abs_mult)
  also have "\<dots> \<le> ((10 ^ 9 + 10) * U + H) + 1 / 200 + ((10 ^ 9 + 8) * U + H)
      + ((10 ^ 9 + 7) * U + 10 ^ 9 * H) + r / (2 * 10 ^ 8) + ((10 ^ 9 + 1) * U + 10 ^ 9 * H)
      + (10 ^ 9 * U + 10 ^ 9 * H)"
  proof -
    have "\<bar>a\<bar> * U \<le> 10 ^ 9 * U" using a(1) by (intro mult_right_mono) (simp_all add: U_def)
    then have "r * \<bar>q1 - q\<bar> \<le> 10 ^ 9 * U + 10 ^ 9 * H" using s1 rH by linarith
    then show ?thesis using s7 e6 s5 s4 s3 s2 by linarith
  qed
  also have "\<dots> \<le> 1 / 200 + r / (2 * 10 ^ 8) + 1 / 10 ^ 6"
    by (simp add: U_def H_def)
  finally have final: "\<bar>res - a\<bar> \<le> 1 / 200 + r / (2 * 10 ^ 8) + 1 / 10 ^ 6" .
  have x21: "\<bar>x\<bar> < 10 ^ 21" using m2 by simp
  show ?thesis
    using q1 x x21 d y res final unfolding q_def M_def rp_def by blast
qed

text \<open>
  C8, as the code has it. For a fiat amount \<open>a\<close> of at most \<open>10 ^ 9\<close> in absolute value and
  a rate \<open>r\<close> with \<open>0 < r \<le> 10 ^ 9\<close> and \<open>\<bar>a\<bar> \<le> 10 ^ 12 * r\<close>, making the instance with
  \<^verbatim>\<open>fromFiat(a, r)\<close> and converting it back with \<^verbatim>\<open>atRate(r)\<close> succeeds, and the result is
  within \<open>0.005 + r / (2 * 10 ^ 8) + 10 powi - 6\<close> of \<open>a\<close>: the tolerance of the two
  decimals, the worth of half a ratoshi at that rate, and the rounding of the doubles.
\<close>

theorem fiat_round_trip_tolerance:
  assumes "0 < r" "r \<le> 10 ^ 9" "\<bar>a\<bar> \<le> 10 ^ 9" "\<bar>a\<bar> \<le> 10 ^ 12 * r"
  shows "\<exists>res. fiat_round_trip (Fin a) (Fin r) = Inr (Fin res)
           \<and> \<bar>res - a\<bar> \<le> 1 / 200 + r / (2 * 10 ^ 8) + 1 / 10 ^ 6"
proof -
  obtain q1 x d y res where
    q1: "fl (a / r) = Fin q1" and x: "fl (q1 * 10 ^ 8) = Fin x" and x21: "\<bar>x\<bar> < 10 ^ 21"
    and d: "fl (of_int (round_half_away_from_zero x) / 10 ^ 8) = Fin d"
    and y: "fl (d * r) = Fin y" and res: "fl (round_places 2 y) = Fin res"
    and bound: "\<bar>res - a\<bar> \<le> 1 / 200 + r / (2 * 10 ^ 8) + 1 / 10 ^ 6"
    using fiat_chain [OF assms] by blast
  define u where "u = \<lparr>u_value = Fin (of_int (round_half_away_from_zero x))\<rparr>"
  have m: "js_mul (Fin q1) (Fin (10 ^ 8)) = Fin x" using x by simp
  have "parseInt (toFixed (Fin x) 0) = Fin (of_int (round_half_away_from_zero x))"
    using parseInt_toFixed [OF x21] fl_rha [OF fl_idem [OF x]] by simp
  then have f: "Unit_from (Fin q1) ''BLK'' = Inr (Fin (of_int (round_half_away_from_zero x)))"
    using m by (simp add: Unit_from_def UNITS_def)
  have mk: "Unit_fromFiat (Fin a) (Fin r) = Inr u"
    using assms(1) q1 f by (simp add: Unit_fromFiat_def Unit_new_def Unit_BLK_def u_def)
  then have c: "Unit True (Fin a) (Num (Fin r)) = Inr u"
    by (simp add: Unit_def Unit_fromFiat_def)
  have "js_mul (js_div (u_value u) (Fin 100000000)) (Fin r) = Fin y"
    using d y by (simp add: u_def)
  then have "Unit_to u (Num (Fin r)) = Inr (Fin res)"
    using to_rate_value [OF c assms(1)] res by (simp add: js_round_places_def)
  then have "fiat_round_trip (Fin a) (Fin r) = Inr (Fin res)"
    by (simp add: fiat_round_trip_def mk Unit_atRate_def)
  then show ?thesis using bound by blast
qed

theorem fiat_round_trip_tolerance_witness:
  "(0::rat) < 2 \<and> (2::rat) \<le> 10 ^ 9 \<and> \<bar>3::rat\<bar> \<le> 10 ^ 9 \<and> \<bar>3::rat\<bar> \<le> 10 ^ 12 * 2
   \<and> (\<exists>res. fiat_round_trip (Fin 3) (Fin 2) = Inr (Fin res)
         \<and> \<bar>res - 3\<bar> \<le> 1 / 200 + 2 / (2 * 10 ^ 8) + 1 / 10 ^ 6)"
proof -
  have h: "(0::rat) < 2" "(2::rat) \<le> 10 ^ 9" "\<bar>3::rat\<bar> \<le> 10 ^ 9" "\<bar>3::rat\<bar> \<le> 10 ^ 12 * 2"
    by simp_all
  show ?thesis using fiat_round_trip_tolerance [OF h] h by blast
qed

section \<open>The magnitude set by the constructor\<close>

lemma shortest_step:
  "0 < fuel \<Longrightarrow> shortest fuel x n k =
     (case filter (digits_ok x n k) (digits_cand x n k) of
        s # _ \<Rightarrow> (s, k)
      | [] \<Rightarrow> shortest (fuel - 1) x n (Suc k))"
  by (cases fuel) (auto split: list.splits)

lemma ilog10_1e21: "ilog 10 1000000000000000000000 = 21"
  by (rule ilog_unique) simp_all

lemma fl_1e21: "fl 1000000000000000000000 = Fin 1000000000000000000000"
  by (rule fl_exact [where m = 476837158203125 and p = 21]) simp_all

lemma shortest_1e21: "shortest 767 1000000000000000000000 22 (Suc 0) = (1, Suc 0)"
  by (subst shortest_step) (simp_all add: digits_cand_def digits_ok_def Let_def fl_1e21)

lemma dec_digits_1: "dec_digits (Suc 0) = ''1''"
  by (simp add: dec_digits.simps digit_of_def digit_chars_def)

lemma dec_digits_21: "dec_digits 21 = ''21''"
  by (simp add: dec_digits.simps digit_of_def digit_chars_def)

lemma ToString_1e21: "ToString_pos 1000000000000000000000 = ''1e+21''"
  by (simp add: ToString_pos_def ilog10_1e21 shortest_1e21 format_digits_def dec_digits_1 dec_digits_21)

lemma toFixed_1e21: "toFixed (Fin 1000000000000000000000) 0 = ''1e+21''"
  using ToString_1e21 by (simp add: toFixed_def)

lemma parseInt_1e21: "parseInt ''1e+21'' = Fin 1"
  by (simp add: parseInt_def strip_sign_def is_digit_def digit_chars_def digits_val_def
      digit_val_def fl_1 signed_def)

lemma js_mul_Fin:
  assumes "js_mul a (Fin s) = Fin x"
  shows "fl x = Fin x"
proof (cases a)
  case (Fin q)
  then show ?thesis using assms fl_idem by simp
qed (use assms in \<open>auto simp: js_inf_def split: if_splits\<close>)

text \<open>
  Below \<open>10 ^ 21\<close> the constructor sets the value to the product \<^verbatim>\<open>amount * UNITS[code][0]\<close>,
  rounded to the nearest integer, half away from zero.
\<close>

lemma magnitude_in_range:
  assumes "UNITS k = Entry scale prec" "js_mul amt (Fin scale) = Fin x" "\<bar>x\<bar> < 10 ^ 21"
  shows "Unit_new amt (Key k) = Inr \<lparr>u_value = Fin (of_int (round_half_away_from_zero x))\<rparr>"
  using assms fl_rha [OF js_mul_Fin [OF assms(2)]]
  by (simp add: Unit_new_def Unit_from_def parseInt_toFixed)

text \<open>
  C1. For the amount \<open>10 ^ 13\<close> in BLK the product \<^verbatim>\<open>amount * UNITS[code][0]\<close> is exactly
  \<open>10 ^ 21\<close>, an integer, which rounds to itself. From \<open>10 ^ 21\<close> on \<open>toFixed\<close> prints in
  exponent notation, here \<^verbatim>\<open>1e+21\<close>, and \<^verbatim>\<open>parseInt\<close> stops at the \<^verbatim>\<open>e\<close>: the instance holds
  the value 1.
\<close>

theorem huge_amount_magnitude:
  "Unit_new (Fin 10000000000000) (Key ''BLK'') = Inr \<lparr>u_value = Fin 1\<rparr>
   \<and> js_mul (Fin 10000000000000) (Fin (10 ^ 8)) = Fin (10 ^ 21)
   \<and> round_half_away_from_zero (10 ^ 21) = 10 ^ 21"
proof -
  have m: "js_mul (Fin 10000000000000) (Fin (10 ^ 8)) = Fin 1000000000000000000000"
    using fl_1e21 by simp
  have r: "round_half_away_from_zero (10 ^ 21) = 10 ^ 21"
    using rha_of_int [of "10 ^ 21"] by simp
  have "Unit_from (Fin 10000000000000) ''BLK'' = Inr (Fin 1)"
    unfolding Unit_from_def UNITS_def using m toFixed_1e21 parseInt_1e21 by simp
  then show ?thesis using m r by (simp add: Unit_new_def)
qed

section \<open>Instances and the calls that change them\<close>



text \<open>
  The constructor called on an instance with arguments that a new object would be made
  from: the instance takes the value of that new object, and a \<^verbatim>\<open>TypeError\<close> is raised.
  With arguments that the constructor rejects the instance stays as it was.
\<close>

lemma constructor_call_assigns:
  "Unit_new a c = Inr u' \<Longrightarrow> invoke (Constructor a c) u = (Inl TypeError, u')"
  by (cases c)
    (auto simp: invoke_def Unit_on_instance_def Unit_new_def map_sum_def
          split: if_splits sum.splits)

lemma constructor_call_rejected:
  "Unit_new a c = Inl e \<Longrightarrow> invoke (Constructor a c) u = (Inl (Thrown e), u)"
  by (cases c)
    (auto simp: invoke_def Unit_on_instance_def Unit_new_def map_sum_def
          split: if_splits sum.splits)




section \<open>Calling the constructor without \<^verbatim>\<open>new\<close>\<close>

text \<open>
  C10. Called as a plain function, the constructor returns \<^verbatim>\<open>new Unit(amount, code)\<close>: the
  same instance, or the same error, as the call with \<^verbatim>\<open>new\<close>.
\<close>

theorem call_without_new:
  "Unit False amt cd = Unit True amt cd \<and> Unit False amt cd = Unit_new amt cd"
  by (simp add: Unit_def)

end
